theory Spec2Isabelle
  imports Main "HOL-Library.Sublist"
begin

section \<open>The game engine (game.py)\<close>

text \<open>
  The class \<open>MancalaGame\<close> is a record of its fields. Stone counts, pit numbers and the
  player number are Python integers, hence \<open>int\<close>; the number of pits per side and every
  board index are kept as \<open>nat\<close>, the constructor having refused a pit count below one.
  The six cached index fields are computed once from \<open>pits_per_player\<close> by
  \<open>__post_init__\<close> and never assigned again, so they are functions of that field here.
  The field \<open>rng\<close> is only read by \<open>get_random_move\<close> and is left out.

  Every error the engine raises is a Python \<open>ValueError\<close>; the constructors of \<open>error\<close>
  tell the four raise statements apart.
\<close>

datatype error = GameAlreadyOver | InvalidMovePit int | PitsTooFew | StonesNegative

record game =
  pits_per_player :: nat
  stones_per_pit :: int
  board :: "int list"
  current_player :: int
  moves_history :: "(int \<times> int) list"

definition p1_pits_start :: "game \<Rightarrow> nat" where
  "p1_pits_start g = 0"

definition p1_pits_end :: "game \<Rightarrow> nat" where
  "p1_pits_end g = pits_per_player g - 1"

definition p1_mancala :: "game \<Rightarrow> nat" where
  "p1_mancala g = pits_per_player g"

definition p2_pits_start :: "game \<Rightarrow> nat" where
  "p2_pits_start g = pits_per_player g + 1"

definition p2_pits_end :: "game \<Rightarrow> nat" where
  "p2_pits_end g = (pits_per_player g + 1) * 2 - 2"

definition p2_mancala :: "game \<Rightarrow> nat" where
  "p2_mancala g = (pits_per_player g + 1) * 2 - 1"

text \<open>The constructor with \<open>__post_init__\<close>: validation, the board, the two stores zeroed.\<close>

definition MancalaGame :: "int \<Rightarrow> int \<Rightarrow> error + game" where
  "MancalaGame pits stones =
     (if pits < 1 then Inl PitsTooFew
      else if stones < 0 then Inl StonesNegative
      else
        let board_size = (nat pits + 1) * 2;
            b = replicate board_size stones;
            b = b[nat pits := 0];
            b = b[board_size - 1 := 0]
        in Inr \<lparr>pits_per_player = nat pits, stones_per_pit = stones, board = b,
                 current_player = 1, moves_history = []\<rparr>)"

text \<open>Python's \<open>xs[a:b]\<close> for non-negative bounds; like the slice it never fails.\<close>

definition slice :: "'a list \<Rightarrow> nat \<Rightarrow> nat \<Rightarrow> 'a list" where
  "slice xs a b = take (b - a) (drop a xs)"

definition p1_score :: "game \<Rightarrow> int" where
  "p1_score g = board g ! p1_mancala g"

definition p2_score :: "game \<Rightarrow> int" where
  "p2_score g = board g ! p2_mancala g"

definition p1_pits :: "game \<Rightarrow> int list" where
  "p1_pits g = slice (board g) (p1_pits_start g) (p1_pits_end g + 1)"

definition p2_pits :: "game \<Rightarrow> int list" where
  "p2_pits g = slice (board g) (p2_pits_start g) (p2_pits_end g + 1)"

definition is_valid_move :: "game \<Rightarrow> int \<Rightarrow> bool" where
  "is_valid_move g pit =
     (if \<not> (1 \<le> pit \<and> pit \<le> int (pits_per_player g)) then False
      else
        let pit_index = (if current_player g = 1 then p1_pits_start g + nat (pit - 1)
                         else p2_pits_start g + nat (pit - 1))
        in board g ! pit_index > 0)"

definition get_valid_moves :: "game \<Rightarrow> int list" where
  "get_valid_moves g = filter (is_valid_move g) [1 .. int (pits_per_player g)]"

definition is_terminal :: "game \<Rightarrow> bool" where
  "is_terminal g =
     (let p1_empty = (sum_list (p1_pits g) = 0);
          p2_empty = (sum_list (p2_pits g) = 0)
      in p1_empty \<or> p2_empty)"

definition get_winner :: "game \<Rightarrow> int option" where
  "get_winner g =
     (if \<not> is_terminal g then None
      else if p1_score g > p2_score g then Some 1
      else if p2_score g > p1_score g then Some 2
      else Some 0)"

definition get_opposite_pit :: "game \<Rightarrow> nat \<Rightarrow> int" where
  "get_opposite_pit g pit_index = 2 * int (pits_per_player g) - int pit_index"

definition is_on_player_side :: "game \<Rightarrow> nat \<Rightarrow> int \<Rightarrow> bool" where
  "is_on_player_side g pit_index player =
     (if player = 1 then p1_pits_start g \<le> pit_index \<and> pit_index \<le> p1_pits_end g
      else p2_pits_start g \<le> pit_index \<and> pit_index \<le> p2_pits_end g)"

text \<open>
  The sowing loop of \<open>_distribute_stones\<close>. With a board of a single cell that is also the
  skipped store the Python loop never ends, so the loop is a partial function: \<open>None\<close> is
  "does not return". Lemma \<open>distribute_loop_returns\<close> below shows that it returns on every
  board of two cells or more. On an empty board Python's \<open>%\<close> would raise; no game object
  has one, the constructor building at least four cells.
\<close>

partial_function (option) distribute_loop ::
  "nat \<Rightarrow> nat \<Rightarrow> int \<Rightarrow> nat \<Rightarrow> int list \<Rightarrow> (nat \<times> int list) option" where
  "distribute_loop board_size opponent_mancala stones current_index b =
     (if stones > 0 then
        (let ci = (current_index + 1) mod board_size in
         if ci = opponent_mancala
         then distribute_loop board_size opponent_mancala stones ci b
         else distribute_loop board_size opponent_mancala (stones - 1) ci (b[ci := b ! ci + 1]))
      else Some (current_index, b))"

declare distribute_loop.simps [code]

definition distribute_stones :: "game \<Rightarrow> nat \<Rightarrow> nat \<Rightarrow> nat \<Rightarrow> (nat \<times> game) option" where
  "distribute_stones g pit_index player_mancala opponent_mancala =
     (let board_size = length (board g);
          stones = board g ! pit_index;
          b = (board g)[pit_index := 0]
      in case distribute_loop board_size opponent_mancala stones pit_index b of
           None \<Rightarrow> None
         | Some (current_index, b') \<Rightarrow> Some (current_index, g\<lparr>board := b'\<rparr>))"

text \<open>One \<open>for\<close> loop of \<open>_sweep_remaining_stones\<close>, over the indices it ranges over.\<close>

fun sweep_pits :: "nat \<Rightarrow> nat list \<Rightarrow> int list \<Rightarrow> int list" where
  "sweep_pits mancala [] b = b"
| "sweep_pits mancala (i # is) b =
     sweep_pits mancala is ((b[mancala := b ! mancala + b ! i])[i := 0])"

definition sweep_remaining_stones :: "game \<Rightarrow> game" where
  "sweep_remaining_stones g =
     (let b = sweep_pits (p1_mancala g) [p1_pits_start g ..< p1_pits_end g + 1] (board g);
          b = sweep_pits (p2_mancala g) [p2_pits_start g ..< p2_pits_end g + 1] b
      in g\<lparr>board := b\<rparr>)"

text \<open>
  \<open>play\<close> mutates the object it is called on, so the model returns the object after the
  call next to the outcome, also when the call raises. Its body is split at the source's
  own comments: recording the move, the indices of the mover, the capture check, the
  game-end check and the extra-turn check.
\<close>

definition record_move :: "game \<Rightarrow> int \<Rightarrow> game" where
  "record_move g pit = g\<lparr>moves_history := moves_history g @ [(current_player g, pit)]\<rparr>"

definition player_indices :: "game \<Rightarrow> int \<Rightarrow> nat \<times> nat \<times> nat \<times> (nat \<times> nat)" where
  "player_indices g pit =
     (if current_player g = 1
      then (p1_pits_start g + nat (pit - 1), p1_mancala g, p2_mancala g,
            (p1_pits_start g, p1_pits_end g))
      else (p2_pits_start g + nat (pit - 1), p2_mancala g, p1_mancala g,
            (p2_pits_start g, p2_pits_end g)))"

definition check_capture :: "game \<Rightarrow> nat \<Rightarrow> nat \<Rightarrow> game" where
  "check_capture g final_index player_mancala =
     (if is_on_player_side g final_index (current_player g) \<and> board g ! final_index = 1
      then
        let opposite_index = get_opposite_pit g final_index in
        if 0 \<le> opposite_index \<and> opposite_index < int (length (board g))
           \<and> board g ! nat opposite_index > 0
        then
          let captured = board g ! nat opposite_index + 1;
              b = (board g)[nat opposite_index := 0];
              b = b[final_index := 0];
              b = b[player_mancala := b ! player_mancala + captured]
          in g\<lparr>board := b\<rparr>
        else g
      else g)"

definition check_game_end :: "game \<Rightarrow> nat \<times> nat \<Rightarrow> game" where
  "check_game_end g player_pits =
     (if sum_list (slice (board g) (fst player_pits) (snd player_pits + 1)) = 0 \<or> is_terminal g
      then sweep_remaining_stones g
      else g)"

definition check_extra_turn :: "game \<Rightarrow> nat \<Rightarrow> nat \<Rightarrow> game" where
  "check_extra_turn g final_index player_mancala =
     (if final_index \<noteq> player_mancala \<and> \<not> is_terminal g
      then g\<lparr>current_player := (if current_player g = 1 then 2 else 1)\<rparr>
      else g)"

definition play :: "game \<Rightarrow> int \<Rightarrow> ((error + bool) \<times> game) option" where
  "play g pit =
     (if is_terminal g then Some (Inl GameAlreadyOver, g)
      else if \<not> is_valid_move g pit then Some (Inl (InvalidMovePit pit), g)
      else
        let g = record_move g pit;
            (pit_index, player_mancala, opponent_mancala, player_pits) = player_indices g pit
        in case distribute_stones g pit_index player_mancala opponent_mancala of
             None \<Rightarrow> None
           | Some (final_index, g) \<Rightarrow>
               let g = check_capture g final_index player_mancala;
                   g = check_game_end g player_pits;
                   g = check_extra_turn g final_index player_mancala
               in Some (Inr True, g))"

section \<open>The search (ai.py)\<close>

text \<open>
  Search values are Python numbers compared with \<open>-np.inf\<close> and \<open>np.inf\<close>: the integers
  that \<open>utility\<close> returns, with the two infinities the searches start from. Python's
  \<open>max\<close> and \<open>min\<close> on them are the maximum and minimum of this linear order.
\<close>

datatype score = MinusInf | Fin int | PlusInf

fun score_le :: "score \<Rightarrow> score \<Rightarrow> bool" where
  "score_le MinusInf y = True"
| "score_le (Fin a) MinusInf = False"
| "score_le (Fin a) (Fin b) = (a \<le> b)"
| "score_le (Fin a) PlusInf = True"
| "score_le PlusInf PlusInf = True"
| "score_le PlusInf y = False"

instantiation score :: linorder
begin

definition less_eq_score :: "score \<Rightarrow> score \<Rightarrow> bool" where
  "less_eq_score x y = score_le x y"

definition less_score :: "score \<Rightarrow> score \<Rightarrow> bool" where
  "less_score x y = (score_le x y \<and> \<not> score_le y x)"

instance
proof
  fix x y z :: score
  show "(x < y) = (x \<le> y \<and> \<not> y \<le> x)" by (simp add: less_score_def less_eq_score_def)
  show "x \<le> x" by (cases x) (simp_all add: less_eq_score_def)
  show "x \<le> y \<Longrightarrow> y \<le> z \<Longrightarrow> x \<le> z"
    by (cases x; cases y; cases z) (simp_all add: less_eq_score_def)
  show "x \<le> y \<Longrightarrow> y \<le> x \<Longrightarrow> x = y"
    by (cases x; cases y) (simp_all add: less_eq_score_def)
  show "x \<le> y \<or> y \<le> x"
    by (cases x; cases y) (auto simp: less_eq_score_def)
qed

end

text \<open>
  The objects of class \<open>MancalaGame\<close> live in a store, a list of objects addressed by
  position. A \<open>GameState\<close> tuple holds, in its field \<open>board\<close>, the address of a game
  object, not the object: this is what makes "the search leaves the caller's state alone" a
  statement. The fields of the tuple carry the prefix \<open>gs_\<close>, their names being taken by
  the record of the game and by the methods of the interface.
\<close>

type_synonym store = "game list"

record GameState =
  gs_to_move :: int
  gs_utility :: int
  gs_board :: nat
  gs_moves :: "int list"

text \<open>
  The interface \<open>Game\<close> that the searches are written against: a record of the methods
  they call. Every method reads the store; \<open>result\<close> alone may change it, may raise and,
  through \<open>play\<close>, may fail to return. The world \<open>'w\<close> is the store for Mancala.
\<close>

record ('s, 'm, 'w) game_ops =
  actions :: "'w \<Rightarrow> 's \<Rightarrow> 'm list"
  result :: "'w \<Rightarrow> 's \<Rightarrow> 'm \<Rightarrow> ((error + 's) \<times> 'w) option"
  utility :: "'w \<Rightarrow> 's \<Rightarrow> int \<Rightarrow> int"
  terminal_test :: "'w \<Rightarrow> 's \<Rightarrow> bool"
  to_move :: "'s \<Rightarrow> int"

text \<open>
  \<open>alpha_beta_search\<close>, with \<open>cutoff_test\<close> and \<open>eval_fn\<close> at their defaults, which are
  also the functions \<open>get_alpha_beta_move\<close> passes. The local functions \<open>max_value\<close> and
  \<open>min_value\<close> carry the prefix \<open>ab_\<close>; each \<open>for\<close> loop is a function of the actions
  still to be tried and of the variables the loop updates. The store is threaded through
  every call, and an error or a call that does not return ends the search at once.
\<close>

function
  ab_max_value :: "('s, 'm, 'w) game_ops \<Rightarrow> int \<Rightarrow> int \<Rightarrow> 's \<Rightarrow> score \<Rightarrow> score \<Rightarrow> int \<Rightarrow> 'w
      \<Rightarrow> ((error + score) \<times> 'w) option"
  and ab_max_loop :: "('s, 'm, 'w) game_ops \<Rightarrow> int \<Rightarrow> int \<Rightarrow> 's \<Rightarrow> 'm list \<Rightarrow> score \<Rightarrow> score
      \<Rightarrow> score \<Rightarrow> int \<Rightarrow> 'w \<Rightarrow> ((error + score) \<times> 'w) option"
  and ab_min_value :: "('s, 'm, 'w) game_ops \<Rightarrow> int \<Rightarrow> int \<Rightarrow> 's \<Rightarrow> score \<Rightarrow> score \<Rightarrow> int \<Rightarrow> 'w
      \<Rightarrow> ((error + score) \<times> 'w) option"
  and ab_min_loop :: "('s, 'm, 'w) game_ops \<Rightarrow> int \<Rightarrow> int \<Rightarrow> 's \<Rightarrow> 'm list \<Rightarrow> score \<Rightarrow> score
      \<Rightarrow> score \<Rightarrow> int \<Rightarrow> 'w \<Rightarrow> ((error + score) \<times> 'w) option"
where
  "ab_max_value game depth player state alpha beta current_depth w =
     (if current_depth \<ge> depth \<or> terminal_test game w state
      then Some (Inr (Fin (utility game w state player)), w)
      else ab_max_loop game depth player state (actions game w state) MinusInf alpha beta
             current_depth w)"
| "ab_max_loop game depth player state [] v alpha beta current_depth w = Some (Inr v, w)"
| "ab_max_loop game depth player state (action # rest) v alpha beta current_depth w =
     (case result game w state action of
        None \<Rightarrow> None
      | Some (Inl e, w1) \<Rightarrow> Some (Inl e, w1)
      | Some (Inr child, w1) \<Rightarrow>
          (case ab_min_value game depth player child alpha beta (current_depth + 1) w1 of
             None \<Rightarrow> None
           | Some (Inl e, w2) \<Rightarrow> Some (Inl e, w2)
           | Some (Inr x, w2) \<Rightarrow>
               (let v = max v x in
                if v \<ge> beta then Some (Inr v, w2)
                else ab_max_loop game depth player state rest v (max alpha v) beta
                       current_depth w2)))"
| "ab_min_value game depth player state alpha beta current_depth w =
     (if current_depth \<ge> depth \<or> terminal_test game w state
      then Some (Inr (Fin (utility game w state player)), w)
      else ab_min_loop game depth player state (actions game w state) PlusInf alpha beta
             current_depth w)"
| "ab_min_loop game depth player state [] v alpha beta current_depth w = Some (Inr v, w)"
| "ab_min_loop game depth player state (action # rest) v alpha beta current_depth w =
     (case result game w state action of
        None \<Rightarrow> None
      | Some (Inl e, w1) \<Rightarrow> Some (Inl e, w1)
      | Some (Inr child, w1) \<Rightarrow>
          (case ab_max_value game depth player child alpha beta (current_depth + 1) w1 of
             None \<Rightarrow> None
           | Some (Inl e, w2) \<Rightarrow> Some (Inl e, w2)
           | Some (Inr x, w2) \<Rightarrow>
               (let v = min v x in
                if v \<le> alpha then Some (Inr v, w2)
                else ab_min_loop game depth player state rest v alpha (min beta v)
                       current_depth w2)))"
  by pat_completeness auto
termination
  apply (relation "measures [
     (\<lambda>x. case x of
        Inl (Inl (g, depth, p, s, a, b, d, w)) \<Rightarrow> 2 * nat (depth - d)
      | Inl (Inr (g, depth, p, s, as, v, a, b, d, w)) \<Rightarrow> 2 * nat (depth - d - 1) + 1
      | Inr (Inl (g, depth, p, s, a, b, d, w)) \<Rightarrow> 2 * nat (depth - d)
      | Inr (Inr (g, depth, p, s, as, v, a, b, d, w)) \<Rightarrow> 2 * nat (depth - d - 1) + 1),
     (\<lambda>x. case x of
        Inl (Inl (g, depth, p, s, a, b, d, w)) \<Rightarrow> 0
      | Inl (Inr (g, depth, p, s, as, v, a, b, d, w)) \<Rightarrow> length as
      | Inr (Inl (g, depth, p, s, a, b, d, w)) \<Rightarrow> 0
      | Inr (Inr (g, depth, p, s, as, v, a, b, d, w)) \<Rightarrow> length as)]")
       apply auto
  done

fun ab_root_loop :: "('s, 'm, 'w) game_ops \<Rightarrow> int \<Rightarrow> int \<Rightarrow> 's \<Rightarrow> 'm list \<Rightarrow> score
    \<Rightarrow> score \<Rightarrow> 'm option \<Rightarrow> 'w \<Rightarrow> ((error + 'm option) \<times> 'w) option" where
  "ab_root_loop game depth player state [] best_score beta best_action w =
     Some (Inr best_action, w)"
| "ab_root_loop game depth player state (action # rest) best_score beta best_action w =
     (case result game w state action of
        None \<Rightarrow> None
      | Some (Inl e, w1) \<Rightarrow> Some (Inl e, w1)
      | Some (Inr child, w1) \<Rightarrow>
          (case ab_min_value game depth player child best_score beta 1 w1 of
             None \<Rightarrow> None
           | Some (Inl e, w2) \<Rightarrow> Some (Inl e, w2)
           | Some (Inr v, w2) \<Rightarrow>
               if v > best_score
               then ab_root_loop game depth player state rest v beta (Some action) w2
               else ab_root_loop game depth player state rest best_score beta best_action w2))"

definition alpha_beta_search :: "'s \<Rightarrow> ('s, 'm, 'w) game_ops \<Rightarrow> int \<Rightarrow> 'w
    \<Rightarrow> ((error + 'm option) \<times> 'w) option" where
  "alpha_beta_search state game depth w =
     (let player = to_move game state
      in ab_root_loop game depth player state (actions game w state) MinusInf PlusInf None w)"

text \<open>\<open>minimax_search\<close>, in the same way, with the prefix \<open>mm_\<close>.\<close>

function
  mm_max_value :: "('s, 'm, 'w) game_ops \<Rightarrow> int \<Rightarrow> int \<Rightarrow> 's \<Rightarrow> int \<Rightarrow> 'w
      \<Rightarrow> ((error + score) \<times> 'w) option"
  and mm_max_loop :: "('s, 'm, 'w) game_ops \<Rightarrow> int \<Rightarrow> int \<Rightarrow> 's \<Rightarrow> 'm list \<Rightarrow> score
      \<Rightarrow> int \<Rightarrow> 'w \<Rightarrow> ((error + score) \<times> 'w) option"
  and mm_min_value :: "('s, 'm, 'w) game_ops \<Rightarrow> int \<Rightarrow> int \<Rightarrow> 's \<Rightarrow> int \<Rightarrow> 'w
      \<Rightarrow> ((error + score) \<times> 'w) option"
  and mm_min_loop :: "('s, 'm, 'w) game_ops \<Rightarrow> int \<Rightarrow> int \<Rightarrow> 's \<Rightarrow> 'm list \<Rightarrow> score
      \<Rightarrow> int \<Rightarrow> 'w \<Rightarrow> ((error + score) \<times> 'w) option"
where
  "mm_max_value game depth player state current_depth w =
     (if current_depth \<ge> depth \<or> terminal_test game w state
      then Some (Inr (Fin (utility game w state player)), w)
      else mm_max_loop game depth player state (actions game w state) MinusInf current_depth w)"
| "mm_max_loop game depth player state [] v current_depth w = Some (Inr v, w)"
| "mm_max_loop game depth player state (action # rest) v current_depth w =
     (case result game w state action of
        None \<Rightarrow> None
      | Some (Inl e, w1) \<Rightarrow> Some (Inl e, w1)
      | Some (Inr child, w1) \<Rightarrow>
          (case mm_min_value game depth player child (current_depth + 1) w1 of
             None \<Rightarrow> None
           | Some (Inl e, w2) \<Rightarrow> Some (Inl e, w2)
           | Some (Inr x, w2) \<Rightarrow>
               mm_max_loop game depth player state rest (max v x) current_depth w2))"
| "mm_min_value game depth player state current_depth w =
     (if current_depth \<ge> depth \<or> terminal_test game w state
      then Some (Inr (Fin (utility game w state player)), w)
      else mm_min_loop game depth player state (actions game w state) PlusInf current_depth w)"
| "mm_min_loop game depth player state [] v current_depth w = Some (Inr v, w)"
| "mm_min_loop game depth player state (action # rest) v current_depth w =
     (case result game w state action of
        None \<Rightarrow> None
      | Some (Inl e, w1) \<Rightarrow> Some (Inl e, w1)
      | Some (Inr child, w1) \<Rightarrow>
          (case mm_max_value game depth player child (current_depth + 1) w1 of
             None \<Rightarrow> None
           | Some (Inl e, w2) \<Rightarrow> Some (Inl e, w2)
           | Some (Inr x, w2) \<Rightarrow>
               mm_min_loop game depth player state rest (min v x) current_depth w2))"
  by pat_completeness auto
termination
  apply (relation "measures [
     (\<lambda>x. case x of
        Inl (Inl (g, depth, p, s, d, w)) \<Rightarrow> 2 * nat (depth - d)
      | Inl (Inr (g, depth, p, s, as, v, d, w)) \<Rightarrow> 2 * nat (depth - d - 1) + 1
      | Inr (Inl (g, depth, p, s, d, w)) \<Rightarrow> 2 * nat (depth - d)
      | Inr (Inr (g, depth, p, s, as, v, d, w)) \<Rightarrow> 2 * nat (depth - d - 1) + 1),
     (\<lambda>x. case x of
        Inl (Inl (g, depth, p, s, d, w)) \<Rightarrow> 0
      | Inl (Inr (g, depth, p, s, as, v, d, w)) \<Rightarrow> length as
      | Inr (Inl (g, depth, p, s, d, w)) \<Rightarrow> 0
      | Inr (Inr (g, depth, p, s, as, v, d, w)) \<Rightarrow> length as)]")
       apply auto
  done

fun mm_root_loop :: "('s, 'm, 'w) game_ops \<Rightarrow> int \<Rightarrow> int \<Rightarrow> 's \<Rightarrow> 'm list \<Rightarrow> 'm option
    \<Rightarrow> score \<Rightarrow> 'w \<Rightarrow> ((error + 'm option) \<times> 'w) option" where
  "mm_root_loop game depth player state [] best_action best_value w =
     Some (Inr best_action, w)"
| "mm_root_loop game depth player state (action # rest) best_action best_value w =
     (case result game w state action of
        None \<Rightarrow> None
      | Some (Inl e, w1) \<Rightarrow> Some (Inl e, w1)
      | Some (Inr child, w1) \<Rightarrow>
          (case mm_min_value game depth player child 1 w1 of
             None \<Rightarrow> None
           | Some (Inl e, w2) \<Rightarrow> Some (Inl e, w2)
           | Some (Inr v, w2) \<Rightarrow>
               if v > best_value
               then mm_root_loop game depth player state rest (Some action) v w2
               else mm_root_loop game depth player state rest best_action best_value w2))"

definition minimax_search :: "'s \<Rightarrow> ('s, 'm, 'w) game_ops \<Rightarrow> int \<Rightarrow> 'w
    \<Rightarrow> ((error + 'm option) \<times> 'w) option" where
  "minimax_search state game depth w =
     (let player = to_move game state
      in mm_root_loop game depth player state (actions game w state) None MinusInf w)"

text \<open>
  The class \<open>MancalaAI\<close>. \<open>copy\<close> is \<open>copy.deepcopy\<close> at its documented meaning: a new
  object, at a new address, sharing nothing with the original; \<open>play_at\<close> is \<open>play\<close>
  called on the object at an address, which it changes in place.
\<close>

definition copy :: "store \<Rightarrow> nat \<Rightarrow> nat \<times> store" where
  "copy w a = (length w, w @ [w ! a])"

definition play_at :: "store \<Rightarrow> nat \<Rightarrow> int \<Rightarrow> ((error + bool) \<times> store) option" where
  "play_at w a pit =
     (case play (w ! a) pit of
        None \<Rightarrow> None
      | Some (outcome, g) \<Rightarrow> Some (outcome, w[a := g]))"

definition ai_terminal_test :: "store \<Rightarrow> GameState \<Rightarrow> bool" where
  "ai_terminal_test w state = is_terminal (w ! gs_board state)"

definition ai_actions :: "store \<Rightarrow> GameState \<Rightarrow> int list" where
  "ai_actions w state =
     (if ai_terminal_test w state then [] else get_valid_moves (w ! gs_board state))"

definition calculate_utility :: "game \<Rightarrow> int" where
  "calculate_utility g = p1_score g - p2_score g"

definition ai_result :: "store \<Rightarrow> GameState \<Rightarrow> int \<Rightarrow> ((error + GameState) \<times> store) option" where
  "ai_result w state move =
     (let (new_game, w) = copy w (gs_board state)
      in case play_at w new_game move of
           None \<Rightarrow> None
         | Some (Inl e, w) \<Rightarrow> Some (Inl e, w)
         | Some (Inr ok, w) \<Rightarrow>
             Some (Inr \<lparr>gs_to_move = current_player (w ! new_game),
                        gs_utility = calculate_utility (w ! new_game),
                        gs_board = new_game,
                        gs_moves = get_valid_moves (w ! new_game)\<rparr>, w))"

definition ai_utility :: "store \<Rightarrow> GameState \<Rightarrow> int \<Rightarrow> int" where
  "ai_utility w state player =
     (let g = w ! gs_board state;
          util = p1_score g - p2_score g
      in if player = 1 then util else - util)"

definition ai_to_move :: "GameState \<Rightarrow> int" where
  "ai_to_move state = gs_to_move state"

definition MancalaAI :: "(GameState, int, store) game_ops" where
  "MancalaAI = \<lparr>actions = ai_actions, result = ai_result, utility = ai_utility,
                 terminal_test = ai_terminal_test, to_move = ai_to_move\<rparr>"

definition get_alpha_beta_move :: "GameState \<Rightarrow> int \<Rightarrow> store \<Rightarrow> ((error + int option) \<times> store) option" where
  "get_alpha_beta_move state depth w = alpha_beta_search state MancalaAI depth w"

definition get_minimax_move :: "GameState \<Rightarrow> int \<Rightarrow> store \<Rightarrow> ((error + int option) \<times> store) option" where
  "get_minimax_move state depth w = minimax_search state MancalaAI depth w"

section \<open>Notions used to state and prove the properties\<close>

text \<open>
  The representation invariant of a game object: the board has the length the constructor
  gave it, every cell is a non-negative stone count, and the player to move is 1 or 2.
  Under it every index the engine computes lies inside the board.
\<close>

definition wf_game :: "game \<Rightarrow> bool" where
  "wf_game g \<longleftrightarrow>
     1 \<le> pits_per_player g \<and> length (board g) = (pits_per_player g + 1) * 2
     \<and> list_all (\<lambda>x. 0 \<le> x) (board g)
     \<and> (current_player g = 1 \<or> current_player g = 2)"


text \<open>
  A run of successful \<open>play\<close> calls, one per pit number of the list; \<open>None\<close> as soon as a call
  raises or does not return.
\<close>

fun play_all :: "game \<Rightarrow> int list \<Rightarrow> game option" where
  "play_all g [] = Some g"
| "play_all g (pit # pits) =
     (case play g pit of Some (Inr ok, g') \<Rightarrow> play_all g' pits | _ \<Rightarrow> None)"

text \<open>Every cell that is not a store is empty.\<close>

definition all_pits_empty :: "game \<Rightarrow> bool" where
  "all_pits_empty g \<longleftrightarrow>
     list_all (\<lambda>i. i \<noteq> p1_mancala g \<and> i \<noteq> p2_mancala g \<longrightarrow> board g ! i = 0)
       [0..<length (board g)]"

text \<open>
  The capture transfer between two boards: the landing cell and the opposite cell are
  emptied, the store gains the opposite cell's stones and the landing stone, and no other
  cell changes.
\<close>

definition capture_transfer :: "int list \<Rightarrow> int list \<Rightarrow> nat \<Rightarrow> nat \<Rightarrow> nat \<Rightarrow> bool" where
  "capture_transfer b b' landing opposite store \<longleftrightarrow>
     length b' = length b
     \<and> b' ! landing = 0 \<and> b' ! opposite = 0
     \<and> b' ! store = b ! store + (b ! opposite + 1)
     \<and> list_all (\<lambda>i. i \<noteq> landing \<and> i \<noteq> opposite \<and> i \<noteq> store \<longrightarrow> b' ! i = b ! i)
           [0..<length b]"

text \<open>
  What one run of the sowing loop establishes, from the board \<open>b\<close> it starts on to the
  board \<open>b'\<close> and the index \<open>fi\<close> it returns.
\<close>

definition sown :: "nat \<Rightarrow> nat \<Rightarrow> int \<Rightarrow> nat \<Rightarrow> int list \<Rightarrow> nat \<Rightarrow> int list \<Rightarrow> bool" where
  "sown n opp stones idx b fi b' \<longleftrightarrow>
     length b' = n \<and> fi < n \<and> sum_list b' = sum_list b + max 0 stones
     \<and> (\<forall>i<n. b ! i \<le> b' ! i) \<and> (opp < n \<longrightarrow> b' ! opp = b ! opp)
     \<and> (0 < stones \<longrightarrow> fi \<noteq> opp \<and> b ! fi < b' ! fi)
     \<and> (stones \<le> 0 \<longrightarrow> fi = idx \<and> b' = b)"

text \<open>The indices \<open>play\<close> works with, for either player, on a board of the right shape.\<close>

definition mover_ok :: "game \<Rightarrow> nat \<Rightarrow> nat \<Rightarrow> nat \<Rightarrow> nat \<times> nat \<Rightarrow> bool" where
  "mover_ok g pi pm om pp \<longleftrightarrow>
     (current_player g = 1 \<and> pi < p1_mancala g \<and> pm = p1_mancala g \<and> om = p2_mancala g
        \<and> pp = (p1_pits_start g, p1_pits_end g))
     \<or> (current_player g \<noteq> 1 \<and> p1_mancala g < pi \<and> pi < p2_mancala g \<and> pm = p2_mancala g
        \<and> om = p1_mancala g \<and> pp = (p2_pits_start g, p2_pits_end g))"

text \<open>
  The rules of the specification, written from its words and from nothing of the engine:
  the regions of a board of \<open>2 * (P + 1)\<close> cells (player 1 has the pits \<open>0 .. P - 1\<close> and the
  store \<open>P\<close>, player 2 the pits \<open>P + 1 .. 2 * P\<close> and the store \<open>2 * P + 1\<close>), the cell of the
  1-indexed pit of the side to move, and the other player.
\<close>

definition spec_store :: "nat \<Rightarrow> int \<Rightarrow> nat" where
  "spec_store P player = (if player = 1 then P else 2 * P + 1)"

definition spec_own_pit :: "nat \<Rightarrow> int \<Rightarrow> nat \<Rightarrow> bool" where
  "spec_own_pit P player i \<longleftrightarrow> (if player = 1 then i < P else P + 1 \<le> i \<and> i \<le> 2 * P)"

definition spec_other :: "int \<Rightarrow> int" where
  "spec_other player = (if player = 1 then 2 else 1)"

definition spec_source :: "nat \<Rightarrow> int \<Rightarrow> int \<Rightarrow> nat" where
  "spec_source P player pit = (if player = 1 then nat (pit - 1) else P + 1 + nat (pit - 1))"

text \<open>
  The sowing walk of the specification: from the source pit one index at a time around the
  board, the opponent's store skipped, one stone per step. \<open>spec_walk\<close> lists the cells
  that receive a stone, in order; the landing index is the last of them, and the sown board
  is the board with the source pit emptied and one stone added per visit.
\<close>

definition spec_next :: "nat \<Rightarrow> nat \<Rightarrow> nat \<Rightarrow> nat" where
  "spec_next n skip i = (let j = (i + 1) mod n in if j = skip then (j + 1) mod n else j)"

fun spec_walk :: "nat \<Rightarrow> nat \<Rightarrow> nat \<Rightarrow> nat \<Rightarrow> nat list" where
  "spec_walk n skip 0 i = []"
| "spec_walk n skip (Suc k) i = spec_next n skip i # spec_walk n skip k (spec_next n skip i)"

definition spec_cells :: "game \<Rightarrow> int \<Rightarrow> nat list" where
  "spec_cells g pit =
     (let P = pits_per_player g; player = current_player g;
          source = spec_source P player pit
      in spec_walk (2 * (P + 1)) (spec_store P (spec_other player))
           (nat (board g ! source)) source)"

definition spec_landing :: "game \<Rightarrow> int \<Rightarrow> nat" where
  "spec_landing g pit =
     last (spec_source (pits_per_player g) (current_player g) pit # spec_cells g pit)"

definition spec_sown :: "game \<Rightarrow> int \<Rightarrow> int list" where
  "spec_sown g pit =
     fold (\<lambda>i b. b[i := b ! i + 1]) (spec_cells g pit)
       ((board g)[spec_source (pits_per_player g) (current_player g) pit := 0])"

text \<open>
  The capture rule of the specification on a sown board, the stones left in a player's pit
  range, the terminal test, the sweep, and "every cell that is not a store is empty".
\<close>

definition spec_capture :: "nat \<Rightarrow> int \<Rightarrow> nat \<Rightarrow> int list \<Rightarrow> int list" where
  "spec_capture P player landing b =
     (let opposite = 2 * P - landing; store = spec_store P player
      in if spec_own_pit P player landing \<and> b ! landing = 1 \<and> 0 < b ! opposite
         then (b[store := b ! store + (b ! opposite + 1)])[landing := 0, opposite := 0]
         else b)"

definition spec_side_sum :: "nat \<Rightarrow> int \<Rightarrow> int list \<Rightarrow> int" where
  "spec_side_sum P player b =
     (if player = 1 then (\<Sum>i\<leftarrow>[0..<P]. b ! i) else (\<Sum>i\<leftarrow>[P + 1..<2 * P + 1]. b ! i))"

definition spec_game_over :: "nat \<Rightarrow> int list \<Rightarrow> bool" where
  "spec_game_over P b \<longleftrightarrow> spec_side_sum P 1 b = 0 \<or> spec_side_sum P 2 b = 0"

definition spec_sweep :: "nat \<Rightarrow> int list \<Rightarrow> int list" where
  "spec_sweep P b =
     map (\<lambda>i. if i = P then b ! P + spec_side_sum P 1 b
              else if i = 2 * P + 1 then b ! (2 * P + 1) + spec_side_sum P 2 b
              else 0) [0..<length b]"

definition spec_pits_empty :: "nat \<Rightarrow> int list \<Rightarrow> bool" where
  "spec_pits_empty P b \<longleftrightarrow> list_all (\<lambda>i. i = P \<or> i = 2 * P + 1 \<or> b ! i = 0) [0..<length b]"


text \<open>
  Concrete games: the standard opening, the board of the capture test of the test suite,
  the same board with the landing pit emptied, a one-pit game whose only move sows a full
  lap, and a three-pit game in which player 1 moves the last stone of the side.
\<close>

definition standard_game :: game where
  "standard_game = \<lparr>pits_per_player = 6, stones_per_pit = 4,
     board = [4, 4, 4, 4, 4, 4, 0, 4, 4, 4, 4, 4, 4, 0],
     current_player = 1, moves_history = []\<rparr>"

definition capture_test_game :: game where
  "capture_test_game = \<lparr>pits_per_player = 6, stones_per_pit = 4,
     board = [0, 0, 1, 4, 4, 4, 0, 4, 4, 4, 4, 4, 4, 0],
     current_player = 1, moves_history = []\<rparr>"

definition empty_landing_game :: game where
  "empty_landing_game = \<lparr>pits_per_player = 6, stones_per_pit = 4,
     board = [0, 0, 1, 0, 4, 4, 0, 4, 4, 4, 4, 4, 4, 0],
     current_player = 1, moves_history = []\<rparr>"

definition lap_game :: game where
  "lap_game = \<lparr>pits_per_player = 1, stones_per_pit = 3, board = [3, 0, 3, 0],
     current_player = 1, moves_history = []\<rparr>"

definition last_stone_game :: game where
  "last_stone_game = \<lparr>pits_per_player = 3, stones_per_pit = 1,
     board = [0, 0, 1, 5, 1, 1, 1, 0], current_player = 1, moves_history = []\<rparr>"


text \<open>
  The value a root move backs up: the value \<open>minimax_search\<close> computes for the child that
  \<open>result\<close> gives for the move.
\<close>

definition backed_up_value :: "('s, 'm, 'w) game_ops \<Rightarrow> 's \<Rightarrow> int \<Rightarrow> 'm \<Rightarrow> 'w \<Rightarrow> score option" where
  "backed_up_value game state depth move w =
     (case result game w state move of
        Some (Inr child, w1) \<Rightarrow>
          (case mm_min_value game depth (to_move game state) child 1 w1 of
             Some (Inr v, w2) \<Rightarrow> Some v
           | _ \<Rightarrow> None)
      | _ \<Rightarrow> None)"

text \<open>
  The searches on values instead of store addresses, used in the proofs only: \<open>T\<close> is the
  terminal test, \<open>U\<close> the utility for the root player and \<open>K\<close> the list of children of a
  position. The store-threaded searches above are shown to compute exactly these.
\<close>

function
  ab_max_val :: "('p \<Rightarrow> bool) \<Rightarrow> ('p \<Rightarrow> int) \<Rightarrow> ('p \<Rightarrow> 'p list) \<Rightarrow> int \<Rightarrow> 'p \<Rightarrow> score \<Rightarrow> score
      \<Rightarrow> int \<Rightarrow> score"
  and ab_max_vals :: "('p \<Rightarrow> bool) \<Rightarrow> ('p \<Rightarrow> int) \<Rightarrow> ('p \<Rightarrow> 'p list) \<Rightarrow> int \<Rightarrow> 'p list \<Rightarrow> score
      \<Rightarrow> score \<Rightarrow> score \<Rightarrow> int \<Rightarrow> score"
  and ab_min_val :: "('p \<Rightarrow> bool) \<Rightarrow> ('p \<Rightarrow> int) \<Rightarrow> ('p \<Rightarrow> 'p list) \<Rightarrow> int \<Rightarrow> 'p \<Rightarrow> score \<Rightarrow> score
      \<Rightarrow> int \<Rightarrow> score"
  and ab_min_vals :: "('p \<Rightarrow> bool) \<Rightarrow> ('p \<Rightarrow> int) \<Rightarrow> ('p \<Rightarrow> 'p list) \<Rightarrow> int \<Rightarrow> 'p list \<Rightarrow> score
      \<Rightarrow> score \<Rightarrow> score \<Rightarrow> int \<Rightarrow> score"
where
  "ab_max_val T U K depth p alpha beta d =
     (if d \<ge> depth \<or> T p then Fin (U p)
      else ab_max_vals T U K depth (K p) MinusInf alpha beta d)"
| "ab_max_vals T U K depth [] v alpha beta d = v"
| "ab_max_vals T U K depth (c # cs) v alpha beta d =
     (let v = max v (ab_min_val T U K depth c alpha beta (d + 1))
      in if v \<ge> beta then v else ab_max_vals T U K depth cs v (max alpha v) beta d)"
| "ab_min_val T U K depth p alpha beta d =
     (if d \<ge> depth \<or> T p then Fin (U p)
      else ab_min_vals T U K depth (K p) PlusInf alpha beta d)"
| "ab_min_vals T U K depth [] v alpha beta d = v"
| "ab_min_vals T U K depth (c # cs) v alpha beta d =
     (let v = min v (ab_max_val T U K depth c alpha beta (d + 1))
      in if v \<le> alpha then v else ab_min_vals T U K depth cs v alpha (min beta v) d)"
  by pat_completeness auto
termination
  apply (relation "measures [
     (\<lambda>x. case x of
        Inl (Inl (T, U, K, depth, p, a, b, d)) \<Rightarrow> 2 * nat (depth - d)
      | Inl (Inr (T, U, K, depth, cs, v, a, b, d)) \<Rightarrow> 2 * nat (depth - d - 1) + 1
      | Inr (Inl (T, U, K, depth, p, a, b, d)) \<Rightarrow> 2 * nat (depth - d)
      | Inr (Inr (T, U, K, depth, cs, v, a, b, d)) \<Rightarrow> 2 * nat (depth - d - 1) + 1),
     (\<lambda>x. case x of
        Inl (Inl (T, U, K, depth, p, a, b, d)) \<Rightarrow> 0
      | Inl (Inr (T, U, K, depth, cs, v, a, b, d)) \<Rightarrow> length cs
      | Inr (Inl (T, U, K, depth, p, a, b, d)) \<Rightarrow> 0
      | Inr (Inr (T, U, K, depth, cs, v, a, b, d)) \<Rightarrow> length cs)]")
       apply auto
  done

function
  mm_max_val :: "('p \<Rightarrow> bool) \<Rightarrow> ('p \<Rightarrow> int) \<Rightarrow> ('p \<Rightarrow> 'p list) \<Rightarrow> int \<Rightarrow> 'p \<Rightarrow> int \<Rightarrow> score"
  and mm_max_vals :: "('p \<Rightarrow> bool) \<Rightarrow> ('p \<Rightarrow> int) \<Rightarrow> ('p \<Rightarrow> 'p list) \<Rightarrow> int \<Rightarrow> 'p list \<Rightarrow> score
      \<Rightarrow> int \<Rightarrow> score"
  and mm_min_val :: "('p \<Rightarrow> bool) \<Rightarrow> ('p \<Rightarrow> int) \<Rightarrow> ('p \<Rightarrow> 'p list) \<Rightarrow> int \<Rightarrow> 'p \<Rightarrow> int \<Rightarrow> score"
  and mm_min_vals :: "('p \<Rightarrow> bool) \<Rightarrow> ('p \<Rightarrow> int) \<Rightarrow> ('p \<Rightarrow> 'p list) \<Rightarrow> int \<Rightarrow> 'p list \<Rightarrow> score
      \<Rightarrow> int \<Rightarrow> score"
where
  "mm_max_val T U K depth p d =
     (if d \<ge> depth \<or> T p then Fin (U p) else mm_max_vals T U K depth (K p) MinusInf d)"
| "mm_max_vals T U K depth [] v d = v"
| "mm_max_vals T U K depth (c # cs) v d =
     mm_max_vals T U K depth cs (max v (mm_min_val T U K depth c (d + 1))) d"
| "mm_min_val T U K depth p d =
     (if d \<ge> depth \<or> T p then Fin (U p) else mm_min_vals T U K depth (K p) PlusInf d)"
| "mm_min_vals T U K depth [] v d = v"
| "mm_min_vals T U K depth (c # cs) v d =
     mm_min_vals T U K depth cs (min v (mm_max_val T U K depth c (d + 1))) d"
  by pat_completeness auto
termination
  apply (relation "measures [
     (\<lambda>x. case x of
        Inl (Inl (T, U, K, depth, p, d)) \<Rightarrow> 2 * nat (depth - d)
      | Inl (Inr (T, U, K, depth, cs, v, d)) \<Rightarrow> 2 * nat (depth - d - 1) + 1
      | Inr (Inl (T, U, K, depth, p, d)) \<Rightarrow> 2 * nat (depth - d)
      | Inr (Inr (T, U, K, depth, cs, v, d)) \<Rightarrow> 2 * nat (depth - d - 1) + 1),
     (\<lambda>x. case x of
        Inl (Inl (T, U, K, depth, p, d)) \<Rightarrow> 0
      | Inl (Inr (T, U, K, depth, cs, v, d)) \<Rightarrow> length cs
      | Inr (Inl (T, U, K, depth, p, d)) \<Rightarrow> 0
      | Inr (Inr (T, U, K, depth, cs, v, d)) \<Rightarrow> length cs)]")
       apply auto
  done

fun ab_root_val :: "('p \<Rightarrow> bool) \<Rightarrow> ('p \<Rightarrow> int) \<Rightarrow> ('p \<Rightarrow> 'p list) \<Rightarrow> int \<Rightarrow> ('m \<times> 'p) list
    \<Rightarrow> score \<Rightarrow> score \<Rightarrow> 'm option \<Rightarrow> score \<times> 'm option" where
  "ab_root_val T U K depth [] best_score beta best_action = (best_score, best_action)"
| "ab_root_val T U K depth ((action, c) # rest) best_score beta best_action =
     (let v = ab_min_val T U K depth c best_score beta 1
      in if v > best_score then ab_root_val T U K depth rest v beta (Some action)
         else ab_root_val T U K depth rest best_score beta best_action)"

fun mm_root_val :: "('p \<Rightarrow> bool) \<Rightarrow> ('p \<Rightarrow> int) \<Rightarrow> ('p \<Rightarrow> 'p list) \<Rightarrow> int \<Rightarrow> ('m \<times> 'p) list
    \<Rightarrow> 'm option \<Rightarrow> score \<Rightarrow> score \<times> 'm option" where
  "mm_root_val T U K depth [] best_action best_value = (best_value, best_action)"
| "mm_root_val T U K depth ((action, c) # rest) best_action best_value =
     (let v = mm_min_val T U K depth c 1
      in if v > best_value then mm_root_val T U K depth rest (Some action) v
         else mm_root_val T U K depth rest best_action best_value)"

text \<open>
  \<open>close_to alpha beta v x\<close>: the value \<open>x\<close> that alpha-beta returns for the window
  \<open>(alpha, beta)\<close> is exact inside the window and a bound on the minimax value \<open>v\<close>
  outside it.
\<close>

definition close_to :: "score \<Rightarrow> score \<Rightarrow> score \<Rightarrow> score \<Rightarrow> bool" where
  "close_to alpha beta v x \<longleftrightarrow>
     ((x \<le> alpha \<longrightarrow> v \<le> x) \<and> (alpha < x \<and> x < beta \<longrightarrow> x = v) \<and> (beta \<le> x \<longrightarrow> x \<le> v))"

text \<open>
  A game \<open>G\<close> over a world is simulated by operations on values, through a \<open>view\<close> of a
  state in a world: the reading methods agree with the operations on the view, and on an
  action of the list \<open>result\<close> returns a state whose view is the operation's result, in a
  world that extends the old one without changing the view of any earlier state.
\<close>

definition kids :: "('p \<Rightarrow> 'm list) \<Rightarrow> ('p \<Rightarrow> 'm \<Rightarrow> 'p) \<Rightarrow> 'p \<Rightarrow> 'p list" where
  "kids A R p = map (R p) (A p)"

definition simulates :: "('s, 'm, 'w) game_ops \<Rightarrow> ('p \<Rightarrow> 'm list) \<Rightarrow> ('p \<Rightarrow> 'm \<Rightarrow> 'p) \<Rightarrow> ('p \<Rightarrow> bool)
    \<Rightarrow> ('p \<Rightarrow> int \<Rightarrow> int) \<Rightarrow> ('w \<Rightarrow> 's \<Rightarrow> 'p) \<Rightarrow> ('w \<Rightarrow> 's \<Rightarrow> bool) \<Rightarrow> ('w \<Rightarrow> 'w \<Rightarrow> bool) \<Rightarrow> bool" where
  "simulates G A R T U view ok ext \<longleftrightarrow>
     (\<forall>w. ext w w)
     \<and> (\<forall>w1 w2 w3. ext w1 w2 \<longrightarrow> ext w2 w3 \<longrightarrow> ext w1 w3)
     \<and> (\<forall>w w' s. ok w s \<longrightarrow> ext w w' \<longrightarrow> ok w' s \<and> view w' s = view w s)
     \<and> (\<forall>w s. ok w s \<longrightarrow> actions G w s = A (view w s) \<and> terminal_test G w s = T (view w s)
            \<and> (\<forall>pl. utility G w s pl = U (view w s) pl))
     \<and> (\<forall>w s a. ok w s \<longrightarrow> a \<in> set (A (view w s)) \<longrightarrow>
            (\<exists>s' w'. result G w s a = Some (Inr s', w') \<and> ext w w' \<and> ok w' s'
               \<and> view w' s' = R (view w s) a))"

text \<open>The operations on game values that simulate \<open>MancalaAI\<close>, and the view of a state.\<close>

definition legal_moves :: "game \<Rightarrow> int list" where
  "legal_moves g = (if is_terminal g then [] else get_valid_moves g)"

definition played :: "game \<Rightarrow> int \<Rightarrow> game" where
  "played g move = (case play g move of Some (outcome, g') \<Rightarrow> g' | None \<Rightarrow> g)"

definition score_for :: "game \<Rightarrow> int \<Rightarrow> int" where
  "score_for g player = (if player = 1 then p1_score g - p2_score g else - (p1_score g - p2_score g))"

definition object_of :: "store \<Rightarrow> GameState \<Rightarrow> game" where
  "object_of w state = w ! gs_board state"

definition store_ok :: "store \<Rightarrow> GameState \<Rightarrow> bool" where
  "store_ok w state \<longleftrightarrow> gs_board state < length w \<and> wf_game (w ! gs_board state)"

text \<open>
  Further concrete inputs: the opening states of the standard game and of the small game
  of the test suite, each with its object at address 0, and the finished game of the tests.
\<close>

definition standard_state :: GameState where
  "standard_state = \<lparr>gs_to_move = 1, gs_utility = 0, gs_board = 0, gs_moves = [1, 2, 3, 4, 5, 6]\<rparr>"

definition small_game :: game where
  "small_game = \<lparr>pits_per_player = 3, stones_per_pit = 2, board = [2, 2, 2, 0, 2, 2, 2, 0],
     current_player = 1, moves_history = []\<rparr>"

definition small_state :: GameState where
  "small_state = \<lparr>gs_to_move = 1, gs_utility = 0, gs_board = 0, gs_moves = [1, 2, 3]\<rparr>"

definition finished_game :: game where
  "finished_game = \<lparr>pits_per_player = 3, stones_per_pit = 2, board = [0, 0, 0, 10, 0, 0, 0, 5],
     current_player = 1, moves_history = []\<rparr>"

definition finished_state :: GameState where
  "finished_state = \<lparr>gs_to_move = 1, gs_utility = 5, gs_board = 0, gs_moves = []\<rparr>"

section \<open>Properties of the engine\<close>

lemma all_pits_empty_iff:
  "all_pits_empty g \<longleftrightarrow>
     (\<forall>i<length (board g). i \<noteq> p1_mancala g \<and> i \<noteq> p2_mancala g \<longrightarrow> board g ! i = 0)"
  by (auto simp: all_pits_empty_def list_all_iff)

lemma capture_transfer_iff:
  "capture_transfer b b' landing opposite store \<longleftrightarrow>
     length b' = length b
     \<and> b' ! landing = 0 \<and> b' ! opposite = 0
     \<and> b' ! store = b ! store + (b ! opposite + 1)
     \<and> (\<forall>i<length b. i \<noteq> landing \<and> i \<noteq> opposite \<and> i \<noteq> store \<longrightarrow> b' ! i = b ! i)"
  by (auto simp: capture_transfer_def list_all_iff)

lemma sum_list_update_int:
  "i < length xs \<Longrightarrow> sum_list (xs[i := v]) = sum_list xs - xs ! i + (v::int)"
  by (induction xs arbitrary: i) (auto split: nat.splits)

lemma distribute_loop_stop:
  "stones \<le> 0 \<Longrightarrow> distribute_loop n opp stones idx b = Some (idx, b)"
  by (subst distribute_loop.simps) simp

lemma distribute_loop_place:
  "0 < stones \<Longrightarrow> (idx + 1) mod n \<noteq> opp \<Longrightarrow>
   distribute_loop n opp stones idx b =
   distribute_loop n opp (stones - 1) ((idx + 1) mod n) (b[(idx + 1) mod n := b ! ((idx + 1) mod n) + 1])"
  by (subst distribute_loop.simps) (simp add: Let_def)

lemma distribute_loop_skip:
  "0 < stones \<Longrightarrow> (idx + 1) mod n = opp \<Longrightarrow>
   distribute_loop n opp stones idx b = distribute_loop n opp stones opp b"
  by (subst distribute_loop.simps) (simp add: Let_def)

lemma sown_step:
  assumes "length b = n" "ci < n" "ci \<noteq> opp" "0 < stones"
    and "sown n opp (stones - 1) ci (b[ci := b ! ci + 1]) fi b'"
  shows "sown n opp stones idx b fi b'"
proof -
  let ?b1 = "b[ci := b ! ci + 1]"
  have s: "sum_list ?b1 = sum_list b + 1"
    using assms(1,2) by (simp add: sum_list_update_int)
  have m: "\<forall>i<n. b ! i \<le> ?b1 ! i"
    using assms(1,2) by (auto simp: nth_list_update)
  have c: "b ! ci < ?b1 ! ci" using assms(1,2) by simp
  have o: "opp < n \<longrightarrow> ?b1 ! opp = b ! opp" using assms(1,3) by simp
  show ?thesis
  proof (cases "stones - 1 \<le> 0")
    case True
    with assms(5) have "fi = ci" "b' = ?b1" by (auto simp: sown_def)
    with assms s m c o True show ?thesis by (auto simp: sown_def)
  next
    case False
    with assms(5) s m o assms(4) show ?thesis
      unfolding sown_def by (auto intro: order_trans le_less_trans)
  qed
qed

lemma distribute_loop_returns:
  assumes "2 \<le> n" "length b = n" "idx < n"
  shows "\<exists>fi b'. distribute_loop n opp stones idx b = Some (fi, b') \<and> sown n opp stones idx b fi b'"
  using assms(2,3)
proof (induction "nat stones" arbitrary: stones idx b)
  case 0
  then have "stones \<le> 0" by simp
  then show ?case using 0 by (simp add: distribute_loop_stop sown_def)
next
  case (Suc k)
  then have pos: "0 < stones" and k: "k = nat (stones - 1)" by auto
  define ci where "ci = (idx + 1) mod n"
  have ci: "ci < n" using assms(1) by (simp add: ci_def)
  show ?case
  proof (cases "ci = opp")
    case False
    let ?b1 = "b[ci := b ! ci + 1]"
    have "length ?b1 = n" using Suc.prems by simp
    from Suc.hyps(1)[OF k this ci] obtain fi b' where
      r: "distribute_loop n opp (stones - 1) ci ?b1 = Some (fi, b')"
      and s: "sown n opp (stones - 1) ci ?b1 fi b'" by blast
    have "distribute_loop n opp stones idx b = Some (fi, b')"
      using pos False r by (simp add: distribute_loop_place ci_def)
    moreover have "sown n opp stones idx b fi b'"
      using sown_step[OF Suc.prems(1) ci False pos s] .
    ultimately show ?thesis by blast
  next
    case True
    define cj where "cj = (opp + 1) mod n"
    have cj: "cj < n" using assms(1) by (simp add: cj_def)
    have ne: "cj \<noteq> opp"
    proof
      assume "cj = opp"
      moreover have "opp + 1 < n \<or> opp + 1 = n" using ci True by auto
      ultimately show False using assms(1) by (auto simp: cj_def)
    qed
    let ?b1 = "b[cj := b ! cj + 1]"
    have "length ?b1 = n" using Suc.prems by simp
    from Suc.hyps(1)[OF k this cj] obtain fi b' where
      r: "distribute_loop n opp (stones - 1) cj ?b1 = Some (fi, b')"
      and s: "sown n opp (stones - 1) cj ?b1 fi b'" by blast
    have "distribute_loop n opp stones idx b = distribute_loop n opp stones opp b"
      using pos True by (simp add: distribute_loop_skip ci_def)
    also have "\<dots> = Some (fi, b')"
      using pos ne r by (simp add: distribute_loop_place cj_def)
    finally have "distribute_loop n opp stones idx b = Some (fi, b')" .
    moreover have "sown n opp stones idx b fi b'"
      using sown_step[OF Suc.prems(1) cj ne pos s] .
    ultimately show ?thesis by blast
  qed
qed

lemma sweep_pits_props:
  assumes "m < length b" "distinct is" "m \<notin> set is" "\<forall>i\<in>set is. i < length b"
  shows "length (sweep_pits m is b) = length b
       \<and> sum_list (sweep_pits m is b) = sum_list b
       \<and> (\<forall>i\<in>set is. sweep_pits m is b ! i = 0)
       \<and> sweep_pits m is b ! m = b ! m + (\<Sum>i\<leftarrow>is. b ! i)
       \<and> (\<forall>j. j \<notin> set is \<and> j \<noteq> m \<longrightarrow> sweep_pits m is b ! j = b ! j)"
  using assms
proof (induction "is" arbitrary: b)
  case Nil
  then show ?case by simp
next
  case (Cons i "is")
  let ?b1 = "(b[m := b ! m + b ! i])[i := 0]"
  have i: "i < length b" "i \<noteq> m" "i \<notin> set is" using Cons.prems by auto
  have l1: "length ?b1 = length b" by simp
  have s1: "sum_list ?b1 = sum_list b"
    using Cons.prems(1) i by (simp add: sum_list_update_int)
  have m1: "?b1 ! m = b ! m + b ! i" using Cons.prems(1) i by simp
  have i1: "?b1 ! i = 0" using i by simp
  have o1: "\<And>j. j \<noteq> i \<Longrightarrow> j \<noteq> m \<Longrightarrow> ?b1 ! j = b ! j" by simp
  have ih: "length (sweep_pits m is ?b1) = length ?b1
       \<and> sum_list (sweep_pits m is ?b1) = sum_list ?b1
       \<and> (\<forall>i\<in>set is. sweep_pits m is ?b1 ! i = 0)
       \<and> sweep_pits m is ?b1 ! m = ?b1 ! m + (\<Sum>i\<leftarrow>is. ?b1 ! i)
       \<and> (\<forall>j. j \<notin> set is \<and> j \<noteq> m \<longrightarrow> sweep_pits m is ?b1 ! j = ?b1 ! j)"
    using Cons.prems i by (intro Cons.IH) auto
  have "\<And>j. j \<in> set is \<Longrightarrow> ?b1 ! j = b ! j"
  proof -
    fix j assume "j \<in> set is"
    then have "j \<noteq> i" "j \<noteq> m" using Cons.prems(3) i(3) by auto
    then show "?b1 ! j = b ! j" by (rule o1)
  qed
  then have sm: "(\<Sum>j\<leftarrow>is. ?b1 ! j) = (\<Sum>j\<leftarrow>is. b ! j)"
    by (intro arg_cong[where f=sum_list] map_cong refl)
  show ?case
    using ih l1 s1 m1 i1 o1 sm i by (auto simp del: list_update.simps)
qed

lemma sum_list_nth_upt:
  "a \<le> b \<Longrightarrow> b \<le> length xs \<Longrightarrow> (\<Sum>i\<leftarrow>[a..<b]. xs ! i) = sum_list (slice xs a b)"
proof -
  assume a: "a \<le> b" "b \<le> length xs"
  have "slice xs a b = map ((!) xs) [a..<b]"
    unfolding slice_def using a
    by (intro nth_equalityI) (auto simp: nth_append)
  then show ?thesis by simp
qed

lemmas idx_defs = p1_pits_start_def p1_pits_end_def p1_mancala_def
  p2_pits_start_def p2_pits_end_def p2_mancala_def

lemma idx_facts:
  assumes "1 \<le> pits_per_player g"
  shows "p1_pits_start g = 0" "p1_pits_end g + 1 = pits_per_player g"
    "p1_mancala g = pits_per_player g" "p2_pits_start g = pits_per_player g + 1"
    "p2_pits_end g + 1 = p2_mancala g" "p2_mancala g = pits_per_player g + pits_per_player g + 1"
    "p2_pits_end g = pits_per_player g + pits_per_player g"
    "p1_pits_end g < pits_per_player g"
  using assms by (auto simp: idx_defs)

lemma sweep_fields [simp]:
  "pits_per_player (sweep_remaining_stones g) = pits_per_player g"
  "current_player (sweep_remaining_stones g) = current_player g"
  "moves_history (sweep_remaining_stones g) = moves_history g"
  "stones_per_pit (sweep_remaining_stones g) = stones_per_pit g"
  by (simp_all add: sweep_remaining_stones_def Let_def)

lemma sweep_board:
  assumes "e1 \<le> m1" "m1 < a2" "e2 \<le> m2" "m2 < length b" "a1 \<le> e1" "a2 \<le> e2"
  defines "b1 \<equiv> sweep_pits m1 [a1..<e1] b"
  defines "b2 \<equiv> sweep_pits m2 [a2..<e2] b1"
  shows "length b2 = length b" "sum_list b2 = sum_list b"
    "\<forall>i. (a1 \<le> i \<and> i < e1) \<or> (a2 \<le> i \<and> i < e2) \<longrightarrow> b2 ! i = 0"
    "b2 ! m1 = b ! m1 + sum_list (slice b a1 e1)"
    "b2 ! m2 = b ! m2 + sum_list (slice b a2 e2)"
    "\<forall>i. \<not> (a1 \<le> i \<and> i < e1) \<and> \<not> (a2 \<le> i \<and> i < e2) \<and> i \<noteq> m1 \<and> i \<noteq> m2 \<longrightarrow> b2 ! i = b ! i"
proof -
  have A: "length b1 = length b \<and> sum_list b1 = sum_list b
       \<and> (\<forall>i\<in>set [a1..<e1]. b1 ! i = 0)
       \<and> b1 ! m1 = b ! m1 + (\<Sum>i\<leftarrow>[a1..<e1]. b ! i)
       \<and> (\<forall>j. j \<notin> set [a1..<e1] \<and> j \<noteq> m1 \<longrightarrow> b1 ! j = b ! j)"
    unfolding b1_def using assms(1-6) by (intro sweep_pits_props) auto
  have B: "length b2 = length b1 \<and> sum_list b2 = sum_list b1
       \<and> (\<forall>i\<in>set [a2..<e2]. b2 ! i = 0)
       \<and> b2 ! m2 = b1 ! m2 + (\<Sum>i\<leftarrow>[a2..<e2]. b1 ! i)
       \<and> (\<forall>j. j \<notin> set [a2..<e2] \<and> j \<noteq> m2 \<longrightarrow> b2 ! j = b1 ! j)"
    unfolding b2_def using assms(1-6) A by (intro sweep_pits_props) auto
  show "length b2 = length b" "sum_list b2 = sum_list b" using A B by auto
  show "\<forall>i. (a1 \<le> i \<and> i < e1) \<or> (a2 \<le> i \<and> i < e2) \<longrightarrow> b2 ! i = 0"
  proof (intro allI impI)
    fix i assume i: "(a1 \<le> i \<and> i < e1) \<or> (a2 \<le> i \<and> i < e2)"
    show "b2 ! i = 0"
    proof (cases "a2 \<le> i \<and> i < e2")
      case True
      then show ?thesis using B by simp
    next
      case False
      then have r: "a1 \<le> i \<and> i < e1" using i by blast
      then have "b1 ! i = 0" using A by simp
      moreover have "i \<noteq> m2" "i \<notin> set [a2..<e2]" using r assms(1-6) by auto
      then have "b2 ! i = b1 ! i" using B by blast
      ultimately show ?thesis by simp
    qed
  qed
  have "m1 \<noteq> m2" "m1 \<notin> set [a2..<e2]" using assms(1-6) by auto
  then have "b2 ! m1 = b1 ! m1" using B by blast
  moreover have "e1 \<le> length b" using assms(1-6) by linarith
  ultimately show "b2 ! m1 = b ! m1 + sum_list (slice b a1 e1)"
    using A assms(5) by (simp add: sum_list_nth_upt)
  have "\<And>j. j \<in> set [a2..<e2] \<Longrightarrow> b1 ! j = b ! j"
  proof -
    fix j assume "j \<in> set [a2..<e2]"
    then have "j \<notin> set [a1..<e1]" "j \<noteq> m1" using assms(1-6) by auto
    then show "b1 ! j = b ! j" using A by blast
  qed
  then have "(\<Sum>i\<leftarrow>[a2..<e2]. b1 ! i) = (\<Sum>i\<leftarrow>[a2..<e2]. b ! i)"
    by (intro arg_cong[where f=sum_list] map_cong refl)
  moreover have "m2 \<notin> set [a1..<e1]" "m2 \<noteq> m1" using assms(1-6) by auto
  then have "b1 ! m2 = b ! m2" using A by blast
  moreover have "e2 \<le> length b" using assms(3,4) by linarith
  ultimately show "b2 ! m2 = b ! m2 + sum_list (slice b a2 e2)"
    using B assms(6) by (simp add: sum_list_nth_upt)
  show "\<forall>i. \<not> (a1 \<le> i \<and> i < e1) \<and> \<not> (a2 \<le> i \<and> i < e2) \<and> i \<noteq> m1 \<and> i \<noteq> m2 \<longrightarrow> b2 ! i = b ! i"
    using A B by auto
qed

lemma slice_zero_sum:
  assumes "a \<le> b" "b \<le> length xs" "\<forall>i. a \<le> i \<and> i < b \<longrightarrow> xs ! i = (0::int)"
  shows "sum_list (slice xs a b) = 0"
proof -
  have "sum_list (slice xs a b) = (\<Sum>i\<leftarrow>[a..<b]. xs ! i)"
    using assms(1,2) by (simp add: sum_list_nth_upt)
  also have "\<dots> = (\<Sum>i\<leftarrow>[a..<b]. 0)"
    using assms(3) by (intro arg_cong[where f=sum_list] map_cong refl) auto
  finally show ?thesis by simp
qed

lemma slice_nonneg_sum:
  assumes "list_all (\<lambda>x. (0::int) \<le> x) xs"
  shows "0 \<le> sum_list (slice xs a b)"
proof -
  have "\<forall>x\<in>set (slice xs a b). 0 \<le> x"
    using assms unfolding slice_def list_all_iff
    by (meson in_set_dropD in_set_takeD)
  then show ?thesis by (simp add: sum_list_nonneg)
qed

lemma sweep_props:
  assumes "1 \<le> pits_per_player g" "length (board g) = (pits_per_player g + 1) * 2"
  shows "length (board (sweep_remaining_stones g)) = length (board g)"
    and "sum_list (board (sweep_remaining_stones g)) = sum_list (board g)"
    and "all_pits_empty (sweep_remaining_stones g)"
    and "is_terminal (sweep_remaining_stones g)"
    and "p1_score (sweep_remaining_stones g) = p1_score g + sum_list (p1_pits g)"
    and "p2_score (sweep_remaining_stones g) = p2_score g + sum_list (p2_pits g)"
proof -
  let ?g = "sweep_remaining_stones g"
  note f = idx_facts[OF assms(1)]
  have bd: "board ?g = sweep_pits (p2_mancala g) [p2_pits_start g..<p2_pits_end g + 1]
       (sweep_pits (p1_mancala g) [p1_pits_start g..<p1_pits_end g + 1] (board g))"
    by (simp add: sweep_remaining_stones_def Let_def)
  have o: "p1_pits_end g + 1 \<le> p1_mancala g" "p1_mancala g < p2_pits_start g"
     "p2_pits_end g + 1 \<le> p2_mancala g" "p2_mancala g < length (board g)"
     "p1_pits_start g \<le> p1_pits_end g + 1" "p2_pits_start g \<le> p2_pits_end g + 1"
    using assms by (auto simp: idx_defs)
  note sb = sweep_board[OF o, folded bd]
  show l: "length (board ?g) = length (board g)" by (rule sb(1))
  show "sum_list (board ?g) = sum_list (board g)" by (rule sb(2))
  have mg: "p1_mancala ?g = p1_mancala g" "p2_mancala ?g = p2_mancala g"
    by (simp_all add: idx_defs)
  show "all_pits_empty ?g"
    unfolding all_pits_empty_iff mg l
  proof (intro allI impI)
    fix i assume "i < length (board g)" "i \<noteq> p1_mancala g \<and> i \<noteq> p2_mancala g"
    then have "(p1_pits_start g \<le> i \<and> i < p1_pits_end g + 1)
         \<or> (p2_pits_start g \<le> i \<and> i < p2_pits_end g + 1)"
      using f assms(2) by arith
    then show "board ?g ! i = 0" using sb(3) by blast
  qed
  have "sum_list (slice (board ?g) (p1_pits_start g) (p1_pits_end g + 1)) = 0"
    using sb(3) o l by (intro slice_zero_sum) auto
  then show "is_terminal ?g"
    by (simp add: is_terminal_def p1_pits_def idx_defs)
  show "p1_score ?g = p1_score g + sum_list (p1_pits g)"
    using sb(4) by (simp add: p1_score_def p1_pits_def mg)
  show "p2_score ?g = p2_score g + sum_list (p2_pits g)"
    using sb(5) by (simp add: p2_score_def p2_pits_def mg)
qed

lemma sweep_nonneg:
  assumes "1 \<le> pits_per_player g" "length (board g) = (pits_per_player g + 1) * 2"
    and "list_all (\<lambda>x. 0 \<le> x) (board g)"
  shows "list_all (\<lambda>x. 0 \<le> x) (board (sweep_remaining_stones g))"
proof -
  let ?g = "sweep_remaining_stones g"
  note sp = sweep_props[OF assms(1,2)]
  have n: "\<And>i. i < length (board g) \<Longrightarrow> 0 \<le> board g ! i"
    using assms(3) by (simp add: list_all_length)
  have "0 \<le> board ?g ! i" if i: "i < length (board ?g)" for i
  proof (cases "i \<noteq> p1_mancala g \<and> i \<noteq> p2_mancala g")
    case True
    then show ?thesis using sp(3) i by (simp add: all_pits_empty_iff idx_defs)
  next
    case False
    have "0 \<le> p1_score ?g" "0 \<le> p2_score ?g"
      using sp(5,6) n[of "p1_mancala g"] n[of "p2_mancala g"] assms(1,2)
        slice_nonneg_sum[OF assms(3)]
      by (simp_all add: p1_score_def p2_score_def p1_pits_def p2_pits_def idx_defs)
    then show ?thesis using False by (auto simp: p1_score_def p2_score_def idx_defs)
  qed
  then show ?thesis by (simp add: list_all_length)
qed

lemma capture_board:
  fixes b :: "int list"
  assumes "i < length b" "j < length b" "k < length b" "i \<noteq> j" "i \<noteq> k" "j \<noteq> k"
  defines "b3 \<equiv> (b[j := 0, i := 0])[k := (b[j := 0, i := 0]) ! k + (b ! j + 1)]"
  shows "length b3 = length b" "b3 ! i = 0" "b3 ! j = 0" "b3 ! k = b ! k + b ! j + 1"
    "\<forall>l. l \<noteq> i \<and> l \<noteq> j \<and> l \<noteq> k \<longrightarrow> b3 ! l = b ! l"
    "b ! i = 1 \<Longrightarrow> sum_list b3 = sum_list b"
  using assms by (simp_all add: sum_list_update_int)

lemma player_indices_ok:
  assumes "1 \<le> pit" "pit \<le> int (pits_per_player g)"
    and "player_indices g pit = (pi, pm, om, pp)"
  shows "mover_ok g pi pm om pp"
  using assms by (auto simp: player_indices_def mover_ok_def idx_defs split: if_splits)

lemma valid_move_stones:
  assumes "is_valid_move g pit" "player_indices g pit = (pi, pm, om, pp)"
  shows "1 \<le> pit" "pit \<le> int (pits_per_player g)" "0 < board g ! pi"
  using assms by (auto simp: is_valid_move_def player_indices_def Let_def split: if_splits)

lemma check_capture_fields [simp]:
  "pits_per_player (check_capture g fi pm) = pits_per_player g"
  "current_player (check_capture g fi pm) = current_player g"
  "moves_history (check_capture g fi pm) = moves_history g"
  "stones_per_pit (check_capture g fi pm) = stones_per_pit g"
  by (simp_all add: check_capture_def Let_def)

lemma on_side_opposite:
  assumes P: "1 \<le> pits_per_player g" and len: "length (board g) = (pits_per_player g + 1) * 2"
    and mv: "mover_ok g pi pm om pp"
    and side: "is_on_player_side g fi (current_player g)"
  defines "j \<equiv> nat (get_opposite_pit g fi)"
  shows "0 \<le> get_opposite_pit g fi" "get_opposite_pit g fi < int (length (board g))"
    "fi < length (board g)" "j < length (board g)" "pm < length (board g)"
    "fi \<noteq> j" "fi \<noteq> pm" "j \<noteq> pm" "fi \<noteq> om" "j \<noteq> om"
  using assms
  by (auto simp: get_opposite_pit_def is_on_player_side_def mover_ok_def idx_defs
      split: if_splits)

lemma check_capture_hit:
  assumes P: "1 \<le> pits_per_player g" and len: "length (board g) = (pits_per_player g + 1) * 2"
    and mv: "mover_ok g pi pm om pp"
    and side: "is_on_player_side g fi (current_player g)"
    and one: "board g ! fi = 1"
    and opp: "0 < board g ! nat (get_opposite_pit g fi)"
  shows "capture_transfer (board g) (board (check_capture g fi pm)) fi
           (nat (get_opposite_pit g fi)) pm"
    and "sum_list (board (check_capture g fi pm)) = sum_list (board g)"
    and "board (check_capture g fi pm) ! om = board g ! om"
proof -
  let ?j = "nat (get_opposite_pit g fi)"
  note o = on_side_opposite[OF P len mv side]
  let ?b3 = "((board g)[?j := 0, fi := 0])[pm := ((board g)[?j := 0, fi := 0]) ! pm + (board g ! ?j + 1)]"
  have eq: "check_capture g fi pm = g\<lparr>board := ?b3\<rparr>"
    using side one opp o(1,2) by (simp add: check_capture_def Let_def)
  note cb = capture_board[OF o(3,4,5,6,7,8)]
  show "capture_transfer (board g) (board (check_capture g fi pm)) fi ?j pm"
    unfolding eq capture_transfer_iff using cb(1-5) by simp
  show "sum_list (board (check_capture g fi pm)) = sum_list (board g)"
    unfolding eq using cb(6)[OF one] by simp
  show "board (check_capture g fi pm) ! om = board g ! om"
    unfolding eq using cb(5) o(9,10) mv by (auto simp: mover_ok_def idx_defs)
qed

lemma wf_gameD:
  assumes "wf_game g"
  shows "1 \<le> pits_per_player g" "length (board g) = (pits_per_player g + 1) * 2"
    "list_all (\<lambda>x. 0 \<le> x) (board g)" "current_player g = 1 \<or> current_player g = 2"
    "\<And>i. i < length (board g) \<Longrightarrow> 0 \<le> board g ! i"
  using assms by (auto simp: wf_game_def list_all_length)

lemma play_unfold:
  assumes "\<not> is_terminal g" "is_valid_move g pit"
    and "player_indices (record_move g pit) pit = (pi, pm, om, pp)"
  shows "play g pit =
     (case distribute_stones (record_move g pit) pi pm om of None \<Rightarrow> None
      | Some (fi, g1) \<Rightarrow>
          Some (Inr True, check_extra_turn (check_game_end (check_capture g1 fi pm) pp) fi pm))"
  using assms by (simp add: play_def record_move_def Let_def split: option.splits prod.splits)

lemma record_move_fields [simp]:
  "pits_per_player (record_move g pit) = pits_per_player g"
  "current_player (record_move g pit) = current_player g"
  "board (record_move g pit) = board g"
  "stones_per_pit (record_move g pit) = stones_per_pit g"
  "moves_history (record_move g pit) = moves_history g @ [(current_player g, pit)]"
  by (simp_all add: record_move_def)

lemma player_indices_record_move [simp]:
  "player_indices (record_move g pit) pit' = player_indices g pit'"
  by (simp add: player_indices_def idx_defs)

lemma mover_ok_bounds:
  assumes "1 \<le> pits_per_player g" "length (board g) = (pits_per_player g + 1) * 2"
    "mover_ok g pi pm om pp"
  shows "pi < length (board g)" "pm < length (board g)" "om < length (board g)"
    "pi \<noteq> pm" "pi \<noteq> om" "pm \<noteq> om"
    "(pm = p1_mancala g \<and> om = p2_mancala g) \<or> (pm = p2_mancala g \<and> om = p1_mancala g)"
  using assms by (auto simp: mover_ok_def idx_defs)

lemma sow_props:
  assumes wf: "wf_game g" and vm: "is_valid_move g pit"
    and pix: "player_indices g pit = (pi, pm, om, pp)"
  obtains fi g1 where
    "distribute_stones (record_move g pit) pi pm om = Some (fi, g1)"
    "g1 = (record_move g pit)\<lparr>board := board g1\<rparr>"
    "length (board g1) = length (board g)"
    "sum_list (board g1) = sum_list (board g)"
    "list_all (\<lambda>x. 0 \<le> x) (board g1)"
    "fi < length (board g)" "fi \<noteq> om" "1 \<le> board g1 ! fi"
    "board g ! pm \<le> board g1 ! pm" "board g1 ! om = board g ! om"
proof -
  note w = wf_gameD[OF wf]
  note v = valid_move_stones[OF vm pix]
  have mv: "mover_ok g pi pm om pp" using player_indices_ok[OF v(1,2) pix] .
  note mb = mover_ok_bounds[OF w(1,2) mv]
  let ?n = "length (board g)"
  let ?b0 = "(board g)[pi := 0]"
  have n2: "2 \<le> ?n" using w(1,2) by simp
  have l0: "length ?b0 = ?n" by simp
  from distribute_loop_returns[OF n2 l0 mb(1), of om "board g ! pi"]
  obtain fi b' where r: "distribute_loop ?n om (board g ! pi) pi ?b0 = Some (fi, b')"
    and s: "sown ?n om (board g ! pi) pi ?b0 fi b'" by blast
  let ?g1 = "(record_move g pit)\<lparr>board := b'\<rparr>"
  have d: "distribute_stones (record_move g pit) pi pm om = Some (fi, ?g1)"
    using r by (simp add: distribute_stones_def Let_def)
  have sD: "length b' = ?n" "fi < ?n" "sum_list b' = sum_list ?b0 + board g ! pi"
    "\<forall>i<?n. ?b0 ! i \<le> b' ! i" "b' ! om = ?b0 ! om" "fi \<noteq> om" "?b0 ! fi < b' ! fi"
    using s v(3) mb(3) by (auto simp: sown_def)
  have sum: "sum_list b' = sum_list (board g)"
    using sD(3) mb(1) by (simp add: sum_list_update_int)
  have nn0: "\<And>i. i < ?n \<Longrightarrow> 0 \<le> ?b0 ! i"
    using w(5) mb(1) by (auto simp: nth_list_update)
  have nn: "list_all (\<lambda>x. 0 \<le> x) b'"
    unfolding list_all_length sD(1)
  proof (intro allI impI)
    fix i assume "i < ?n"
    then show "0 \<le> b' ! i" using nn0[of i] sD(4) by fastforce
  qed
  have one: "1 \<le> b' ! fi" using nn0[OF sD(2)] sD(7) by linarith
  have pm: "board g ! pm \<le> b' ! pm" using sD(4) mb(2,4) by fastforce
  have om: "b' ! om = board g ! om" using sD(5) mb(5) by simp
  show thesis
    by (rule that[OF d]) (use sD sum nn one pm om in simp_all)
qed

lemma mover_ok_cong:
  "pits_per_player g' = pits_per_player g \<Longrightarrow> current_player g' = current_player g \<Longrightarrow>
   mover_ok g' = mover_ok g"
  by (intro ext) (simp add: mover_ok_def idx_defs)

lemma capture_stage:
  assumes P: "1 \<le> pits_per_player g" and len: "length (board g) = (pits_per_player g + 1) * 2"
    and nn: "list_all (\<lambda>x. 0 \<le> x) (board g)"
    and mv: "mover_ok g pi pm om pp"
  shows "length (board (check_capture g fi pm)) = length (board g)"
    and "sum_list (board (check_capture g fi pm)) = sum_list (board g)"
    and "list_all (\<lambda>x. 0 \<le> x) (board (check_capture g fi pm))"
    and "board g ! pm \<le> board (check_capture g fi pm) ! pm"
    and "board (check_capture g fi pm) ! om = board g ! om"
proof -
  let ?g2 = "check_capture g fi pm"
  let ?j = "nat (get_opposite_pit g fi)"
  have nnD: "\<And>i. i < length (board g) \<Longrightarrow> 0 \<le> board g ! i"
    using nn by (simp add: list_all_length)
  have "length (board ?g2) = length (board g) \<and> sum_list (board ?g2) = sum_list (board g)
      \<and> list_all (\<lambda>x. 0 \<le> x) (board ?g2) \<and> board g ! pm \<le> board ?g2 ! pm
      \<and> board ?g2 ! om = board g ! om"
  proof (cases "is_on_player_side g fi (current_player g) \<and> board g ! fi = 1
      \<and> 0 < board g ! ?j")
    case True
    then have side: "is_on_player_side g fi (current_player g)" and one: "board g ! fi = 1"
      and opp: "0 < board g ! ?j" by auto
    note h = check_capture_hit[OF P len mv side one opp]
    note o = on_side_opposite[OF P len mv side]
    have t: "length (board ?g2) = length (board g)" "board ?g2 ! fi = 0" "board ?g2 ! ?j = 0"
      "board ?g2 ! pm = board g ! pm + (board g ! ?j + 1)"
      "\<And>i. i < length (board g) \<Longrightarrow> i \<noteq> fi \<Longrightarrow> i \<noteq> ?j \<Longrightarrow> i \<noteq> pm
         \<Longrightarrow> board ?g2 ! i = board g ! i"
      using h(1) by (auto simp: capture_transfer_iff)
    have "0 \<le> board ?g2 ! i" if "i < length (board g)" for i
    proof -
      consider "i = fi" | "i = ?j" | "i = pm" | "i \<noteq> fi \<and> i \<noteq> ?j \<and> i \<noteq> pm" by blast
      then show ?thesis
      proof cases
        case 3
        then show ?thesis using t(4) nnD[OF o(5)] opp by simp
      next
        case 4
        then show ?thesis using t(5)[OF that] nnD[OF that] by simp
      qed (simp_all add: t(2,3))
    qed
    then have "list_all (\<lambda>x. 0 \<le> x) (board ?g2)" by (simp add: list_all_length t(1))
    moreover have "board g ! pm \<le> board ?g2 ! pm" using t(4) opp by simp
    ultimately show ?thesis using h(2,3) t(1) by simp
  next
    case False
    then have "?g2 = g" by (auto simp: check_capture_def Let_def)
    then show ?thesis using nn by simp
  qed
  then show "length (board ?g2) = length (board g)"
    and "sum_list (board ?g2) = sum_list (board g)"
    and "list_all (\<lambda>x. 0 \<le> x) (board ?g2)"
    and "board g ! pm \<le> board ?g2 ! pm"
    and "board ?g2 ! om = board g ! om" by auto
qed

lemma check_game_end_fields [simp]:
  "pits_per_player (check_game_end g pp) = pits_per_player g"
  "current_player (check_game_end g pp) = current_player g"
  "moves_history (check_game_end g pp) = moves_history g"
  "stones_per_pit (check_game_end g pp) = stones_per_pit g"
  by (simp_all add: check_game_end_def)

lemma own_pits_terminal:
  assumes "mover_ok g pi pm om pp"
    and "sum_list (slice (board g) (fst pp) (snd pp + 1)) = 0"
  shows "is_terminal g"
  using assms by (auto simp: mover_ok_def is_terminal_def p1_pits_def p2_pits_def)

lemma game_end_stage:
  assumes P: "1 \<le> pits_per_player g" and len: "length (board g) = (pits_per_player g + 1) * 2"
    and nn: "list_all (\<lambda>x. 0 \<le> x) (board g)"
    and mv: "mover_ok g pi pm om pp"
  shows "length (board (check_game_end g pp)) = length (board g)"
    and "sum_list (board (check_game_end g pp)) = sum_list (board g)"
    and "list_all (\<lambda>x. 0 \<le> x) (board (check_game_end g pp))"
    and "p1_score g \<le> p1_score (check_game_end g pp)"
    and "p2_score g \<le> p2_score (check_game_end g pp)"
    and "is_terminal (check_game_end g pp) \<longleftrightarrow> is_terminal g"
    and "is_terminal g \<Longrightarrow> all_pits_empty (check_game_end g pp)"
proof -
  let ?g3 = "check_game_end g pp"
  note sp = sweep_props[OF P len]
  have c: "(sum_list (slice (board g) (fst pp) (snd pp + 1)) = 0 \<or> is_terminal g)
      \<longleftrightarrow> is_terminal g"
    using own_pits_terminal[OF mv] by blast
  have eq: "?g3 = (if is_terminal g then sweep_remaining_stones g else g)"
    unfolding check_game_end_def c ..
  show "length (board ?g3) = length (board g)" "sum_list (board ?g3) = sum_list (board g)"
    using sp(1,2) by (simp_all add: eq)
  show "list_all (\<lambda>x. 0 \<le> x) (board ?g3)"
    using sweep_nonneg[OF P len nn] nn by (simp add: eq)
  show "p1_score g \<le> p1_score ?g3" "p2_score g \<le> p2_score ?g3"
    using sp(5,6) slice_nonneg_sum[OF nn] by (simp_all add: eq p1_pits_def p2_pits_def)
  show "is_terminal ?g3 \<longleftrightarrow> is_terminal g" using sp(4) by (simp add: eq)
  show "is_terminal g \<Longrightarrow> all_pits_empty ?g3" using sp(3) by (simp add: eq)
qed

lemma check_extra_turn_fields [simp]:
  "pits_per_player (check_extra_turn g fi pm) = pits_per_player g"
  "board (check_extra_turn g fi pm) = board g"
  "moves_history (check_extra_turn g fi pm) = moves_history g"
  "stones_per_pit (check_extra_turn g fi pm) = stones_per_pit g"
  by (simp_all add: check_extra_turn_def)

lemma board_only [simp]:
  "is_terminal (check_extra_turn g fi pm) = is_terminal g"
  "all_pits_empty (check_extra_turn g fi pm) = all_pits_empty g"
  "p1_score (check_extra_turn g fi pm) = p1_score g"
  "p2_score (check_extra_turn g fi pm) = p2_score g"
  by (simp_all add: is_terminal_def all_pits_empty_iff p1_score_def p2_score_def
      p1_pits_def p2_pits_def idx_defs)

lemma check_extra_turn_player:
  "current_player (check_extra_turn g fi pm) =
     (if fi \<noteq> pm \<and> \<not> is_terminal g then (if current_player g = 1 then 2 else 1)
      else current_player g)"
  by (simp add: check_extra_turn_def)

lemma stores_pair:
  assumes "(pm = p1_mancala g \<and> om = p2_mancala g) \<or> (pm = p2_mancala g \<and> om = p1_mancala g)"
    and "(b::int list) ! pm \<le> b' ! pm" "b' ! om = b ! om"
  shows "b ! p1_mancala g \<le> b' ! p1_mancala g" "b ! p2_mancala g \<le> b' ! p2_mancala g"
  using assms by auto

lemma play_stages:
  assumes wf: "wf_game g" and nt: "\<not> is_terminal g" and vm: "is_valid_move g pit"
    and pix: "player_indices g pit = (pi, pm, om, pp)"
  obtains fi g1 where
    "distribute_stones (record_move g pit) pi pm om = Some (fi, g1)"
    "play g pit = Some (Inr True,
       check_extra_turn (check_game_end (check_capture g1 fi pm) pp) fi pm)"
    "pits_per_player g1 = pits_per_player g" "current_player g1 = current_player g"
    "moves_history g1 = moves_history g @ [(current_player g, pit)]"
    "stones_per_pit g1 = stones_per_pit g"
    "length (board g1) = length (board g)"
    "sum_list (board g1) = sum_list (board g)"
    "list_all (\<lambda>x. 0 \<le> x) (board g1)"
    "fi < length (board g)" "fi \<noteq> om" "1 \<le> board g1 ! fi"
    "board g ! pm \<le> board g1 ! pm" "board g1 ! om = board g ! om"
    "mover_ok g1 pi pm om pp"
proof -
  note v = valid_move_stones[OF vm pix]
  have mv: "mover_ok g pi pm om pp" using player_indices_ok[OF v(1,2) pix] .
  from sow_props[OF wf vm pix] obtain fi g1 where
    d: "distribute_stones (record_move g pit) pi pm om = Some (fi, g1)"
    and e: "g1 = (record_move g pit)\<lparr>board := board g1\<rparr>"
    and r: "length (board g1) = length (board g)"
    "sum_list (board g1) = sum_list (board g)"
    "list_all (\<lambda>x. 0 \<le> x) (board g1)"
    "fi < length (board g)" "fi \<noteq> om" "1 \<le> board g1 ! fi"
    "board g ! pm \<le> board g1 ! pm" "board g1 ! om = board g ! om"
    by blast
  have f: "pits_per_player g1 = pits_per_player g" "current_player g1 = current_player g"
    "moves_history g1 = moves_history g @ [(current_player g, pit)]"
    "stones_per_pit g1 = stones_per_pit g"
    by (subst e, simp)+
  have p: "play g pit = Some (Inr True,
       check_extra_turn (check_game_end (check_capture g1 fi pm) pp) fi pm)"
    using play_unfold[OF nt vm, of pi pm om pp] pix d by simp
  have mv1: "mover_ok g1 pi pm om pp" using mv mover_ok_cong[OF f(1,2)] by simp
  show thesis by (rule that[OF d p f r mv1])
qed

lemma play_ok:
  assumes wf: "wf_game g" and nt: "\<not> is_terminal g" and vm: "is_valid_move g pit"
  shows "\<exists>g'. play g pit = Some (Inr True, g') \<and> wf_game g'
     \<and> pits_per_player g' = pits_per_player g \<and> stones_per_pit g' = stones_per_pit g
     \<and> moves_history g' = moves_history g @ [(current_player g, pit)]
     \<and> sum_list (board g') = sum_list (board g)
     \<and> p1_score g \<le> p1_score g' \<and> p2_score g \<le> p2_score g'
     \<and> (is_terminal g' \<longrightarrow> all_pits_empty g')"
proof -
  obtain pi pm om pp where pix: "player_indices g pit = (pi, pm, om, pp)"
    by (metis prod_cases4)
  note w = wf_gameD[OF wf]
  from play_stages[OF wf nt vm pix] obtain fi g1 where
    p: "play g pit = Some (Inr True,
       check_extra_turn (check_game_end (check_capture g1 fi pm) pp) fi pm)"
    and f: "pits_per_player g1 = pits_per_player g" "current_player g1 = current_player g"
    "moves_history g1 = moves_history g @ [(current_player g, pit)]"
    "stones_per_pit g1 = stones_per_pit g"
    and r: "length (board g1) = length (board g)"
    "sum_list (board g1) = sum_list (board g)"
    "list_all (\<lambda>x. 0 \<le> x) (board g1)"
    and s: "board g ! pm \<le> board g1 ! pm" "board g1 ! om = board g ! om"
    and mv1: "mover_ok g1 pi pm om pp"
    by blast
  let ?g2 = "check_capture g1 fi pm"
  let ?g3 = "check_game_end ?g2 pp"
  let ?g4 = "check_extra_turn ?g3 fi pm"
  have P1: "1 \<le> pits_per_player g1" and len1: "length (board g1) = (pits_per_player g1 + 1) * 2"
    using w f r by simp_all
  note c = capture_stage[OF P1 len1 r(3) mv1, of fi]
  have P2: "1 \<le> pits_per_player ?g2" and len2: "length (board ?g2) = (pits_per_player ?g2 + 1) * 2"
    using P1 len1 c(1) by simp_all
  have mv2: "mover_ok ?g2 pi pm om pp" using mv1 mover_ok_cong[of ?g2 g1] by simp
  note e = game_end_stage[OF P2 len2 c(3) mv2]
  note mb = mover_ok_bounds[OF P1 len1 mv1]
  have m1: "p1_mancala g1 = p1_mancala g" "p2_mancala g1 = p2_mancala g"
    "p1_mancala ?g2 = p1_mancala g" "p2_mancala ?g2 = p2_mancala g"
    using f by (simp_all add: idx_defs)
  have s1: "p1_score g \<le> p1_score g1" "p2_score g \<le> p2_score g1"
    using stores_pair[OF mb(7) s] by (simp_all add: p1_score_def p2_score_def m1)
  have s2: "p1_score g1 \<le> p1_score ?g2" "p2_score g1 \<le> p2_score ?g2"
    using stores_pair[OF mb(7) c(4,5)] by (simp_all add: p1_score_def p2_score_def m1)
  have cp: "current_player ?g4 = 1 \<or> current_player ?g4 = 2"
    using w(4) f(2) by (simp add: check_extra_turn_player)
  have "wf_game ?g4"
    unfolding wf_game_def using P1 len1 c(1) e(1,3) cp f by simp
  moreover have "sum_list (board ?g4) = sum_list (board g)" using r c e by simp
  moreover have "p1_score g \<le> p1_score ?g4" "p2_score g \<le> p2_score ?g4"
    using s1 s2 e(4,5) by simp_all
  moreover have "is_terminal ?g4 \<longrightarrow> all_pits_empty ?g4" using e(6,7) by simp
  ultimately show ?thesis using p f by simp
qed

lemma play_fail:
  assumes "is_terminal g \<or> \<not> is_valid_move g pit"
  shows "\<exists>e. play g pit = Some (Inl e, g)"
  using assms by (auto simp: play_def)

lemma play_success_pre:
  assumes "play g pit = Some (Inr ok, g')"
  shows "\<not> is_terminal g" "is_valid_move g pit"
  using assms by (auto simp: play_def split: if_splits)

lemma initial_board:
  fixes S :: int
  assumes "i < n" "j < n" "i \<noteq> j"
  shows "sum_list ((replicate n S)[i := 0, j := 0]) = int n * S - S - S"
    and "0 \<le> S \<Longrightarrow> list_all (\<lambda>x. 0 \<le> x) ((replicate n S)[i := 0, j := 0])"
    and "length ((replicate n S)[i := 0, j := 0]) = n"
  using assms by (auto simp: sum_list_update_int sum_list_replicate list_all_length nth_list_update)

lemma MancalaGame_wf:
  assumes "MancalaGame P S = Inr g"
  shows "wf_game g" "sum_list (board g) = 2 * P * S" "1 \<le> P" "0 \<le> S"
    "pits_per_player g = nat P" "stones_per_pit g = S"
proof -
  have ps: "1 \<le> P" "0 \<le> S" using assms by (auto simp: MancalaGame_def split: if_splits)
  define n where "n = (nat P + 1) * 2"
  define b where "b = (replicate n S)[nat P := 0, n - 1 := 0]"
  have g: "g = \<lparr>pits_per_player = nat P, stones_per_pit = S, board = b,
                 current_player = 1, moves_history = []\<rparr>"
    using assms ps by (simp add: MancalaGame_def Let_def b_def n_def)
  have ij: "nat P < n" "n - 1 < n" "nat P \<noteq> n - 1" using ps by (auto simp: n_def)
  note ib = initial_board[OF ij, of S, folded b_def]
  show "1 \<le> P" "0 \<le> S" by (rule ps)+
  show "pits_per_player g = nat P" "stones_per_pit g = S" by (simp_all add: g)
  have "1 \<le> nat P" using ps by simp
  then show "wf_game g" using ib(2)[OF ps(2)] ib(3) by (simp add: g wf_game_def n_def)
  have "int n * S - S - S = 2 * P * S" using ps by (simp add: n_def algebra_simps)
  then show "sum_list (board g) = 2 * P * S" using ib(1) by (simp add: g)
qed

lemma play_all_invariant:
  assumes "wf_game g" "play_all g pits = Some g'"
  shows "wf_game g' \<and> sum_list (board g') = sum_list (board g)
     \<and> pits_per_player g' = pits_per_player g"
  using assms
proof (induction pits arbitrary: g)
  case Nil
  then show ?case by simp
next
  case (Cons pit pits)
  from Cons.prems(2) obtain ok g1 where p: "play g pit = Some (Inr ok, g1)"
    and r: "play_all g1 pits = Some g'"
    by (auto split: option.splits sum.splits prod.splits)
  note pre = play_success_pre[OF p]
  from play_ok[OF Cons.prems(1) pre] p have w1: "wf_game g1"
    and s1: "sum_list (board g1) = sum_list (board g)"
    and p1: "pits_per_player g1 = pits_per_player g" by auto
  from Cons.IH[OF w1 r] s1 p1 show ?case by simp
qed

lemma landing_gain:
  assumes wf: "wf_game g" and vm: "is_valid_move g pit"
    and pix: "player_indices g pit = (pi, pm, om, pp)"
    and d: "distribute_stones (record_move g pit) pi pm om = Some (fi, g1)"
  shows "board g1 ! fi = 1 \<Longrightarrow> board g ! fi = 0 \<or> fi = pi"
proof -
  assume one: "board g1 ! fi = 1"
  note w = wf_gameD[OF wf]
  note v = valid_move_stones[OF vm pix]
  have mv: "mover_ok g pi pm om pp" using player_indices_ok[OF v(1,2) pix] .
  note mb = mover_ok_bounds[OF w(1,2) mv]
  let ?n = "length (board g)"
  let ?b0 = "(board g)[pi := 0]"
  have n2: "2 \<le> ?n" using w(1,2) by simp
  have l0: "length ?b0 = ?n" by simp
  from distribute_loop_returns[OF n2 l0 mb(1), of om "board g ! pi"]
  obtain fi' b' where r: "distribute_loop ?n om (board g ! pi) pi ?b0 = Some (fi', b')"
    and s: "sown ?n om (board g ! pi) pi ?b0 fi' b'" by blast
  have e: "fi' = fi" "board g1 = b'"
    using d r by (auto simp: distribute_stones_def Let_def)
  have lt: "?b0 ! fi < b' ! fi" and fn: "fi < ?n" using s v(3) e by (auto simp: sown_def)
  have "0 \<le> ?b0 ! fi" using w(5)[of fi] fn mb(1) by (auto simp: nth_list_update)
  with lt one e have z: "?b0 ! fi = 0" by simp
  show ?thesis
  proof (cases "fi = pi")
    case False
    then show ?thesis using z by simp
  qed simp
qed

text \<open>
  The engine against the rules of the specification: the sowing loop walks the cells of
  \<open>spec_walk\<close>, the indices of the mover are those of the specification, and the capture
  check, the terminal test and the sweep compute \<open>spec_capture\<close>, \<open>spec_game_over\<close> and
  \<open>spec_sweep\<close>.
\<close>

lemma distribute_loop_walk:
  assumes "2 \<le> n"
  shows "distribute_loop n opp (int k) idx b =
     Some (last (idx # spec_walk n opp k idx),
           fold (\<lambda>i b. b[i := b ! i + 1]) (spec_walk n opp k idx) b)"
proof (induction k arbitrary: idx b)
  case 0
  show ?case by (simp add: distribute_loop_stop)
next
  case (Suc k)
  define s where "s = int (Suc k)"
  have pos: "0 < s" and dec: "s - 1 = int k" by (simp_all add: s_def)
  define ci where "ci = (idx + 1) mod n"
  show ?case
  proof (cases "ci = opp")
    case False
    then have nx: "spec_next n opp idx = ci" by (simp add: spec_next_def ci_def Let_def)
    have "distribute_loop n opp s idx b = distribute_loop n opp (int k) ci (b[ci := b ! ci + 1])"
      using distribute_loop_place[OF pos, of idx n opp b] False unfolding ci_def dec by simp
    then show ?thesis
      unfolding s_def using Suc.IH[of ci "b[ci := b ! ci + 1]"] by (simp add: nx)
  next
    case True
    define cj where "cj = (opp + 1) mod n"
    have ci: "ci < n" using assms by (simp add: ci_def)
    have ne: "cj \<noteq> opp"
    proof
      assume "cj = opp"
      moreover have "opp + 1 < n \<or> opp + 1 = n" using ci True by auto
      ultimately show False using assms by (auto simp: cj_def)
    qed
    have nx: "spec_next n opp idx = cj"
      using True by (simp add: spec_next_def ci_def cj_def Let_def)
    have "distribute_loop n opp s idx b = distribute_loop n opp s opp b"
      using distribute_loop_skip[OF pos, of idx n opp b] True by (simp add: ci_def)
    also have "\<dots> = distribute_loop n opp (int k) cj (b[cj := b ! cj + 1])"
      using distribute_loop_place[OF pos, of opp n opp b] ne unfolding cj_def dec by simp
    finally show ?thesis
      unfolding s_def using Suc.IH[of cj "b[cj := b ! cj + 1]"] by (simp add: nx)
  qed
qed

lemma player_indices_spec:
  assumes "current_player g = 1 \<or> current_player g = 2"
    and "player_indices g pit = (pi, pm, om, pp)"
  shows "pi = spec_source (pits_per_player g) (current_player g) pit"
    "pm = spec_store (pits_per_player g) (current_player g)"
    "om = spec_store (pits_per_player g) (spec_other (current_player g))"
  using assms
  by (auto simp: player_indices_def spec_source_def spec_store_def spec_other_def idx_defs
      split: if_splits)

lemma sow_spec:
  assumes wf: "wf_game g" and vm: "is_valid_move g pit"
    and pix: "player_indices g pit = (pi, pm, om, pp)"
    and d: "distribute_stones (record_move g pit) pi pm om = Some (fi, g1)"
  shows "fi = spec_landing g pit" "board g1 = spec_sown g pit"
proof -
  note w = wf_gameD[OF wf]
  note v = valid_move_stones[OF vm pix]
  note ps = player_indices_spec[OF w(4) pix]
  let ?n = "length (board g)"
  let ?k = "nat (board g ! pi)"
  have n: "2 * (pits_per_player g + 1) = ?n" using w(2) by simp
  have n2: "2 \<le> ?n" using w(1,2) by simp
  have st: "int ?k = board g ! pi" using v(3) by simp
  have cells: "spec_cells g pit = spec_walk ?n om ?k pi"
    unfolding spec_cells_def Let_def n ps[symmetric] ..
  have r: "distribute_loop ?n om (board g ! pi) pi ((board g)[pi := 0])
      = Some (last (pi # spec_walk ?n om ?k pi),
              fold (\<lambda>i b. b[i := b ! i + 1]) (spec_walk ?n om ?k pi) ((board g)[pi := 0]))"
    using distribute_loop_walk[OF n2, of om ?k pi "(board g)[pi := 0]"] unfolding st .
  have l: "spec_landing g pit = last (pi # spec_walk ?n om ?k pi)"
    unfolding spec_landing_def cells ps(1)[symmetric] ..
  have s: "spec_sown g pit
      = fold (\<lambda>i b. b[i := b ! i + 1]) (spec_walk ?n om ?k pi) ((board g)[pi := 0])"
    unfolding spec_sown_def cells ps(1)[symmetric] ..
  show "fi = spec_landing g pit" "board g1 = spec_sown g pit"
    using d r unfolding l s by (auto simp: distribute_stones_def Let_def)
qed

lemma on_side_spec:
  assumes "1 \<le> pits_per_player g"
  shows "is_on_player_side g fi player \<longleftrightarrow> spec_own_pit (pits_per_player g) player fi"
  using assms by (auto simp: is_on_player_side_def spec_own_pit_def idx_defs)

lemma capture_swap:
  fixes b :: "int list"
  assumes "i < length b" "j < length b" "k < length b" "i \<noteq> j" "i \<noteq> k" "j \<noteq> k"
  shows "(b[j := 0, i := 0])[k := (b[j := 0, i := 0]) ! k + (b ! j + 1)]
       = (b[k := b ! k + (b ! j + 1)])[i := 0, j := 0]"
  using assms by (intro nth_equalityI) (auto simp: nth_list_update)

lemma check_capture_spec:
  assumes P: "1 \<le> pits_per_player g" and len: "length (board g) = (pits_per_player g + 1) * 2"
    and cp: "current_player g = 1 \<or> current_player g = 2"
  shows "board (check_capture g fi (spec_store (pits_per_player g) (current_player g)))
       = spec_capture (pits_per_player g) (current_player g) fi (board g)"
proof (cases "spec_own_pit (pits_per_player g) (current_player g) fi")
  case False
  then show ?thesis
    using P by (simp add: check_capture_def spec_capture_def on_side_spec Let_def)
next
  case True
  let ?P = "pits_per_player g"
  let ?pm = "spec_store ?P (current_player g)"
  let ?j = "2 * ?P - fi"
  have b: "fi \<le> 2 * ?P" "fi < length (board g)" "?j < length (board g)" "?pm < length (board g)"
    "fi \<noteq> ?j" "fi \<noteq> ?pm" "?j \<noteq> ?pm"
    using True P len cp by (auto simp: spec_own_pit_def spec_store_def split: if_splits)
  have j: "get_opposite_pit g fi = int ?j" using b(1) by (simp add: get_opposite_pit_def)
  show ?thesis
    using True P b(3) capture_swap[OF b(2,3,4,5,6,7)]
    by (simp add: check_capture_def spec_capture_def on_side_spec Let_def j)
qed

lemma side_sum_slices:
  assumes "1 \<le> pits_per_player g" "length (board g) = (pits_per_player g + 1) * 2"
  shows "sum_list (p1_pits g) = spec_side_sum (pits_per_player g) 1 (board g)"
    and "sum_list (p2_pits g) = spec_side_sum (pits_per_player g) 2 (board g)"
proof -
  let ?P = "pits_per_player g"
  have a: "p1_pits g = slice (board g) 0 ?P" "p2_pits g = slice (board g) (?P + 1) (2 * ?P + 1)"
    using assms(1) by (simp_all add: p1_pits_def p2_pits_def idx_defs mult.commute)
  have b: "?P \<le> length (board g)" "?P + 1 \<le> 2 * ?P + 1" "2 * ?P + 1 \<le> length (board g)"
    using assms by simp_all
  have c1: "(\<Sum>i\<leftarrow>[0..<?P]. board g ! i) = sum_list (slice (board g) 0 ?P)"
    by (rule sum_list_nth_upt[OF _ b(1)]) simp
  have c2: "(\<Sum>i\<leftarrow>[?P + 1..<2 * ?P + 1]. board g ! i)
      = sum_list (slice (board g) (?P + 1) (2 * ?P + 1))"
    by (rule sum_list_nth_upt[OF b(2,3)])
  show "sum_list (p1_pits g) = spec_side_sum ?P 1 (board g)"
    and "sum_list (p2_pits g) = spec_side_sum ?P 2 (board g)"
    unfolding a spec_side_sum_def c1 c2 by simp_all
qed

lemma is_terminal_spec:
  assumes "1 \<le> pits_per_player g" "length (board g) = (pits_per_player g + 1) * 2"
  shows "is_terminal g \<longleftrightarrow> spec_game_over (pits_per_player g) (board g)"
  by (simp add: is_terminal_def spec_game_over_def side_sum_slices[OF assms] Let_def)

lemma sweep_spec:
  assumes P: "1 \<le> pits_per_player g" and len: "length (board g) = (pits_per_player g + 1) * 2"
  shows "board (sweep_remaining_stones g) = spec_sweep (pits_per_player g) (board g)"
proof (intro nth_equalityI)
  let ?g = "sweep_remaining_stones g"
  let ?P = "pits_per_player g"
  note sp = sweep_props[OF P len]
  note ss = side_sum_slices[OF P len]
  have m: "p1_mancala g = ?P" "p2_mancala g = 2 * ?P + 1" "p1_mancala ?g = ?P"
    "p2_mancala ?g = 2 * ?P + 1"
    using P by (simp_all add: idx_defs)
  show "length (board ?g) = length (spec_sweep ?P (board g))"
    using sp(1) by (simp add: spec_sweep_def)
  fix i assume "i < length (board ?g)"
  then have i: "i < length (board g)" using sp(1) by simp
  have z: "i \<noteq> ?P \<Longrightarrow> i \<noteq> 2 * ?P + 1 \<Longrightarrow> board ?g ! i = 0"
    using sp(3) i sp(1) unfolding all_pits_empty_iff m by simp
  have s1: "board ?g ! ?P = board g ! ?P + spec_side_sum ?P 1 (board g)"
    using sp(5) unfolding p1_score_def m ss .
  have s2: "board ?g ! (2 * ?P + 1) = board g ! (2 * ?P + 1) + spec_side_sum ?P 2 (board g)"
    using sp(6) unfolding p2_score_def m ss .
  show "board ?g ! i = spec_sweep ?P (board g) ! i"
    using i z s1 s2 by (auto simp: spec_sweep_def)
qed

lemma check_game_end_eq:
  assumes "mover_ok g pi pm om pp"
  shows "check_game_end g pp = (if is_terminal g then sweep_remaining_stones g else g)"
proof -
  have c: "(sum_list (slice (board g) (fst pp) (snd pp + 1)) = 0 \<or> is_terminal g)
      \<longleftrightarrow> is_terminal g"
    using own_pits_terminal[OF assms] by blast
  show ?thesis unfolding check_game_end_def c ..
qed

lemma spec_capture_hit:
  assumes "1 \<le> P" "length S = 2 * (P + 1)" "player = 1 \<or> player = 2"
    and "spec_own_pit P player L" "S ! L = 1" "0 < S ! (2 * P - L)"
  shows "capture_transfer S (spec_capture P player L S) L (2 * P - L) (spec_store P player)"
proof -
  let ?pm = "spec_store P player"
  let ?j = "2 * P - L"
  have b: "L < length S" "?j < length S" "?pm < length S" "L \<noteq> ?j" "L \<noteq> ?pm" "?j \<noteq> ?pm"
    using assms(1-4) by (auto simp: spec_own_pit_def spec_store_def split: if_splits)
  have e: "spec_capture P player L S = (S[?pm := S ! ?pm + (S ! ?j + 1)])[L := 0, ?j := 0]"
    using assms(4-6) by (simp add: spec_capture_def Let_def)
  show ?thesis
    unfolding e capture_transfer_iff using b by (auto simp: nth_list_update)
qed

lemma spec_capture_miss:
  assumes "\<not> (spec_own_pit P player L \<and> S ! L = 1 \<and> 0 < S ! (2 * P - L))"
  shows "spec_capture P player L S = S"
  using assms by (auto simp: spec_capture_def Let_def)

lemma spec_sweep_props:
  shows "length (spec_sweep P b) = length b"
    and "P < length b \<Longrightarrow> spec_sweep P b ! P = b ! P + spec_side_sum P 1 b"
    and "2 * P + 1 < length b \<Longrightarrow>
           spec_sweep P b ! (2 * P + 1) = b ! (2 * P + 1) + spec_side_sum P 2 b"
    and "spec_pits_empty P (spec_sweep P b)"
  by (auto simp: spec_sweep_def spec_pits_empty_def list_all_iff)

lemma play_spec:
  assumes wf: "wf_game g" and p: "play g pit = Some (Inr True, g')"
  defines "P \<equiv> pits_per_player g" and "player \<equiv> current_player g"
  defines "L \<equiv> spec_landing g pit" and "S \<equiv> spec_sown g pit"
  defines "B \<equiv> spec_capture P player L S"
  shows "board g' = (if spec_game_over P B then spec_sweep P B else B)"
    and "current_player g' =
           (if L \<noteq> spec_store P player \<and> \<not> spec_game_over P (board g')
            then spec_other player else player)"
    and "is_terminal g' \<longleftrightarrow> spec_game_over P (board g')"
    and "length S = 2 * (P + 1)" and "1 \<le> S ! L"
    and "S ! L = 1 \<Longrightarrow> board g ! L = 0 \<or> L = spec_source P player pit"
    and "length B = 2 * (P + 1)" and "length (board g') = 2 * (P + 1)"
    and "spec_game_over P (board g') \<longleftrightarrow> spec_game_over P B"
proof -
  note w = wf_gameD[OF wf]
  note pre = play_success_pre[OF p]
  obtain pi pm om pp where pix: "player_indices g pit = (pi, pm, om, pp)"
    by (metis prod_cases4)
  note ps = player_indices_spec[OF w(4) pix]
  from play_stages[OF wf pre pix] obtain fi g1 where
    d: "distribute_stones (record_move g pit) pi pm om = Some (fi, g1)"
    and p': "play g pit = Some (Inr True,
       check_extra_turn (check_game_end (check_capture g1 fi pm) pp) fi pm)"
    and f: "pits_per_player g1 = pits_per_player g" "current_player g1 = current_player g"
    and r: "length (board g1) = length (board g)" "list_all (\<lambda>x. 0 \<le> x) (board g1)"
    "1 \<le> board g1 ! fi"
    and mv1: "mover_ok g1 pi pm om pp"
    by blast
  note sw = sow_spec[OF wf pre(2) pix d]
  have fi: "fi = L" and b1: "board g1 = S" using sw by (simp_all add: L_def S_def)
  let ?g2 = "check_capture g1 fi pm"
  let ?g3 = "check_game_end ?g2 pp"
  have g': "g' = check_extra_turn ?g3 fi pm" using p p' by simp
  have P1: "1 \<le> pits_per_player g1" and len1: "length (board g1) = (pits_per_player g1 + 1) * 2"
    and cp1: "current_player g1 = 1 \<or> current_player g1 = 2"
    using w f r by simp_all
  have b2: "board ?g2 = B"
    using check_capture_spec[OF P1 len1 cp1, of fi]
    by (simp add: f b1 fi B_def P_def player_def ps(2))
  note c = capture_stage[OF P1 len1 r(2) mv1, of fi]
  have P2: "1 \<le> pits_per_player ?g2"
    and len2: "length (board ?g2) = (pits_per_player ?g2 + 1) * 2"
    using P1 len1 c(1) by simp_all
  have mv2: "mover_ok ?g2 pi pm om pp" using mv1 mover_ok_cong[of ?g2 g1] by simp
  have pp2: "pits_per_player ?g2 = P" by (simp add: f P_def)
  have t2: "is_terminal ?g2 \<longleftrightarrow> spec_game_over P B"
    using is_terminal_spec[OF P2 len2] unfolding pp2 b2 .
  have s2: "board (sweep_remaining_stones ?g2) = spec_sweep P B"
    using sweep_spec[OF P2 len2] unfolding pp2 b2 .
  have b3: "board ?g3 = (if spec_game_over P B then spec_sweep P B else B)"
    unfolding check_game_end_eq[OF mv2] using t2 s2 b2 by simp
  show bd: "board g' = (if spec_game_over P B then spec_sweep P B else B)"
    unfolding g' using b3 by simp
  note e = game_end_stage[OF P2 len2 c(3) mv2]
  have P3: "1 \<le> pits_per_player ?g3"
    and len3: "length (board ?g3) = (pits_per_player ?g3 + 1) * 2"
    using P2 len2 e(1) by simp_all
  have pp3: "pits_per_player ?g3 = P" by (simp add: f P_def)
  have t3: "is_terminal ?g3 \<longleftrightarrow> spec_game_over P (board g')"
    using is_terminal_spec[OF P3 len3] unfolding pp3 g' by simp
  show "is_terminal g' \<longleftrightarrow> spec_game_over P (board g')"
    using t3 unfolding g' by simp
  have "current_player g' =
     (if fi \<noteq> pm \<and> \<not> is_terminal ?g3 then (if current_player ?g3 = 1 then 2 else 1)
      else current_player ?g3)"
    unfolding g' by (rule check_extra_turn_player)
  moreover have "current_player ?g3 = player" by (simp add: f player_def)
  moreover have "pm = spec_store P player" using ps(2) by (simp add: P_def player_def)
  ultimately show "current_player g' =
           (if L \<noteq> spec_store P player \<and> \<not> spec_game_over P (board g')
            then spec_other player else player)"
    using t3 fi by (simp add: spec_other_def)
  show "spec_game_over P (board g') \<longleftrightarrow> spec_game_over P B"
    using e(6) t2 t3 by simp
  show "length S = 2 * (P + 1)" using r(1) w(2) b1 by (simp add: P_def)
  show "1 \<le> S ! L" using r(3) b1 fi by simp
  show "length B = 2 * (P + 1)" using len2 b2 pp2 by simp
  show "length (board g') = 2 * (P + 1)" using len3 pp3 unfolding g' by simp
  show "board g ! L = 0 \<or> L = spec_source P player pit" if "S ! L = 1"
    using landing_gain[OF wf pre(2) pix d] that b1 fi ps(1) by (simp add: P_def player_def)
qed

section \<open>The claims about the engine\<close>

text \<open>
  C1. Every game built by the constructor holds \<open>2 * P * S\<close> stones, and so does every
  state a run of successful \<open>play\<close> calls leads to from it, the call that sweeps the board
  included: stones are moved, never created or destroyed.
\<close>

theorem stones_conserved:
  assumes "MancalaGame P S = Inr g0" and "play_all g0 pits = Some g"
  shows "sum_list (board g) = 2 * P * S"
  using MancalaGame_wf(1,2)[OF assms(1)] play_all_invariant[OF _ assms(2)] by simp

theorem stones_conserved_witness:
  "MancalaGame 1 3 = Inr lap_game
   \<and> play_all lap_game [1] = Some (lap_game\<lparr>board := [0, 6, 0, 0], moves_history := [(1, 1)]\<rparr>)
   \<and> sum_list (board (lap_game\<lparr>board := [0, 6, 0, 0], moves_history := [(1, 1)]\<rparr>)) = 2 * 1 * 3"
proof -
  have h1: "MancalaGame 1 3 = Inr lap_game"
    unfolding lap_game_def by code_simp
  have h2: "play_all lap_game [1]
      = Some (lap_game\<lparr>board := [0, 6, 0, 0], moves_history := [(1, 1)]\<rparr>)"
    unfolding lap_game_def by code_simp
  show ?thesis by (intro conjI h1 h2 stones_conserved[OF h1 h2])
qed

text \<open>
  C7. On a well-formed game \<open>play\<close> raises exactly when the game is already over or the pit
  is not a valid move, and returns \<open>True\<close> exactly otherwise; when it raises, the object is
  left as it was.
\<close>

theorem play_raises_iff:
  assumes "wf_game g"
  shows "((\<exists>e g'. play g pit = Some (Inl e, g')) \<longleftrightarrow> is_terminal g \<or> \<not> is_valid_move g pit)
     \<and> ((\<exists>g'. play g pit = Some (Inr True, g')) \<longleftrightarrow> \<not> (is_terminal g \<or> \<not> is_valid_move g pit))
     \<and> (\<forall>e g'. play g pit = Some (Inl e, g') \<longrightarrow> g' = g)"
proof (cases "is_terminal g \<or> \<not> is_valid_move g pit")
  case True
  from play_fail[OF True] obtain e where "play g pit = Some (Inl e, g)" ..
  then show ?thesis using True by auto
next
  case False
  with play_ok[OF assms, of pit] obtain g' where "play g pit = Some (Inr True, g')" by auto
  then show ?thesis using False by auto
qed

theorem play_raises_iff_witness:
  "wf_game standard_game
   \<and> \<not> is_valid_move standard_game 7
   \<and> (\<exists>e. play standard_game 7 = Some (Inl e, standard_game))
   \<and> \<not> is_terminal standard_game \<and> is_valid_move standard_game 3
   \<and> (\<exists>g'. play standard_game 3 = Some (Inr True, g'))"
proof -
  have h: "wf_game standard_game" unfolding standard_game_def by code_simp
  have n7: "\<not> is_valid_move standard_game 7" unfolding standard_game_def by code_simp
  have v3: "is_valid_move standard_game 3" unfolding standard_game_def by code_simp
  have nt: "\<not> is_terminal standard_game" unfolding standard_game_def by code_simp
  have r7: "\<exists>e. play standard_game 7 = Some (Inl e, standard_game)"
    using play_raises_iff[OF h, of 7] n7 by blast
  have r3: "\<exists>g'. play standard_game 3 = Some (Inr True, g')"
    using play_raises_iff[OF h, of 3] v3 nt by blast
  show ?thesis by (intro conjI h n7 r7 nt v3 r3)
qed

text \<open>
  C10. A successful \<open>play\<close> on a well-formed game never lowers either store: sowing, the
  capture and the sweep only add stones to them.
\<close>

theorem stores_never_decrease:
  assumes "wf_game g" and "play g pit = Some (Inr True, g')"
  shows "p1_score g \<le> p1_score g' \<and> p2_score g \<le> p2_score g'"
  using play_ok[OF assms(1) play_success_pre[OF assms(2)]] assms(2) by auto

theorem stores_never_decrease_witness:
  "wf_game last_stone_game
   \<and> play last_stone_game 3
       = Some (Inr True, last_stone_game\<lparr>board := [0, 0, 0, 6, 0, 0, 0, 3], moves_history := [(1, 3)]\<rparr>)
   \<and> p1_score last_stone_game
       \<le> p1_score (last_stone_game\<lparr>board := [0, 0, 0, 6, 0, 0, 0, 3], moves_history := [(1, 3)]\<rparr>)
   \<and> p2_score last_stone_game
       \<le> p2_score (last_stone_game\<lparr>board := [0, 0, 0, 6, 0, 0, 0, 3], moves_history := [(1, 3)]\<rparr>)"
proof -
  have h1: "wf_game last_stone_game" unfolding last_stone_game_def by code_simp
  have h2: "play last_stone_game 3
       = Some (Inr True, last_stone_game\<lparr>board := [0, 0, 0, 6, 0, 0, 0, 3], moves_history := [(1, 3)]\<rparr>)"
    unfolding last_stone_game_def by code_simp
  show ?thesis by (intro conjI h1 h2 stores_never_decrease[OF h1 h2, THEN conjunct1]
      stores_never_decrease[OF h1 h2, THEN conjunct2])
qed

text \<open>
  C3, as the code has it. Let \<open>S\<close> be the board the sowing walk of the specification leaves
  and \<open>L\<close> the index its last stone lands on, and let \<open>B\<close> be \<open>S\<close> after the capture rule.
  The capture transfer from \<open>S\<close> to \<open>B\<close> (landing cell and opposite cell emptied, the
  opposite cell's stones and the landing stone added to the mover's store, which is index
  \<open>P\<close> for player 1 and \<open>2 * P + 1\<close> for player 2, no other cell changed) happens exactly
  when \<open>L\<close> lies in the mover's own pit range (\<open>0 .. P - 1\<close> for player 1, \<open>P + 1 .. 2 * P\<close>
  for player 2), holds exactly one stone after placement, and the opposite cell, at index
  \<open>2 * P - L\<close>, holds a stone; otherwise \<open>B\<close> is \<open>S\<close>. The board a successful \<open>play\<close>
  returns is \<open>B\<close>, swept when a side of \<open>B\<close> is left without stones. A landing cell that
  holds exactly one stone after placement was empty before the move or is the pit the move
  was played from; the claim's "equivalently, a cell that was empty before this move" does
  not hold: see the counterexample.
\<close>

theorem capture_rule:
  assumes "wf_game g" and "play g pit = Some (Inr True, g')"
  defines "P \<equiv> pits_per_player g" and "player \<equiv> current_player g"
  defines "L \<equiv> spec_landing g pit" and "S \<equiv> spec_sown g pit"
  defines "B \<equiv> spec_capture P player L S"
  shows "(capture_transfer S B L (2 * P - L) (spec_store P player)
          \<longleftrightarrow> spec_own_pit P player L \<and> S ! L = 1 \<and> 0 < S ! (2 * P - L))
     \<and> (\<not> capture_transfer S B L (2 * P - L) (spec_store P player) \<longrightarrow> B = S)
     \<and> (S ! L = 1 \<longrightarrow> board g ! L = 0 \<or> L = spec_source P player pit)
     \<and> board g' = (if spec_game_over P B then spec_sweep P B else B)"
proof -
  note w = wf_gameD[OF assms(1)]
  note s = play_spec[OF assms(1,2), folded P_def player_def L_def S_def, folded B_def]
  let ?c = "spec_own_pit P player L \<and> S ! L = 1 \<and> 0 < S ! (2 * P - L)"
  have P: "1 \<le> P" and pl: "player = 1 \<or> player = 2"
    using w(1,4) by (simp_all add: P_def player_def)
  have hit: "capture_transfer S B L (2 * P - L) (spec_store P player)" if ?c
    unfolding B_def using spec_capture_hit[OF P s(4) pl] that by blast
  have miss: "B = S" if "\<not> ?c"
    unfolding B_def using spec_capture_miss[OF that] .
  have no: "\<not> capture_transfer S S L (2 * P - L) (spec_store P player)"
    using s(5) by (simp add: capture_transfer_iff)
  have a: "capture_transfer S B L (2 * P - L) (spec_store P player) \<longleftrightarrow> ?c"
    using hit miss no by metis
  have b: "\<not> capture_transfer S B L (2 * P - L) (spec_store P player) \<longrightarrow> B = S"
    using a miss by blast
  have c: "S ! L = 1 \<longrightarrow> board g ! L = 0 \<or> L = spec_source P player pit"
    using s(6) by blast
  show ?thesis by (intro conjI a b c s(1))
qed

theorem capture_rule_witness:
  "wf_game empty_landing_game
   \<and> play empty_landing_game 3 = Some (Inr True,
        empty_landing_game\<lparr>board := [0, 0, 0, 0, 4, 4, 5, 4, 4, 0, 4, 4, 4, 0],
                             current_player := 2, moves_history := [(1, 3)]\<rparr>)
   \<and> spec_landing empty_landing_game 3 = 3
   \<and> spec_sown empty_landing_game 3 = [0, 0, 0, 1, 4, 4, 0, 4, 4, 4, 4, 4, 4, 0]
   \<and> spec_own_pit 6 1 3
   \<and> spec_capture 6 1 3 [0, 0, 0, 1, 4, 4, 0, 4, 4, 4, 4, 4, 4, 0]
       = [0, 0, 0, 0, 4, 4, 5, 4, 4, 0, 4, 4, 4, 0]
   \<and> capture_transfer (spec_sown empty_landing_game 3)
        (spec_capture (pits_per_player empty_landing_game) (current_player empty_landing_game)
           (spec_landing empty_landing_game 3) (spec_sown empty_landing_game 3))
        (spec_landing empty_landing_game 3)
        (2 * pits_per_player empty_landing_game - spec_landing empty_landing_game 3)
        (spec_store (pits_per_player empty_landing_game) (current_player empty_landing_game))"
proof -
  have h1: "wf_game empty_landing_game" unfolding empty_landing_game_def by code_simp
  have h2: "play empty_landing_game 3 = Some (Inr True,
        empty_landing_game\<lparr>board := [0, 0, 0, 0, 4, 4, 5, 4, 4, 0, 4, 4, 4, 0],
                             current_player := 2, moves_history := [(1, 3)]\<rparr>)"
    unfolding empty_landing_game_def by code_simp
  have h3: "spec_landing empty_landing_game 3 = 3"
    unfolding empty_landing_game_def by code_simp
  have h4: "spec_sown empty_landing_game 3 = [0, 0, 0, 1, 4, 4, 0, 4, 4, 4, 4, 4, 4, 0]"
    unfolding empty_landing_game_def by code_simp
  have h5: "spec_own_pit 6 1 3" by code_simp
  have h6: "spec_capture 6 1 3 [0, 0, 0, 1, 4, 4, 0, 4, 4, 4, 4, 4, 4, 0]
       = [0, 0, 0, 0, 4, 4, 5, 4, 4, 0, 4, 4, 4, 0]" by code_simp
  have h7: "spec_own_pit (pits_per_player empty_landing_game)
        (current_player empty_landing_game) (spec_landing empty_landing_game 3)
      \<and> spec_sown empty_landing_game 3 ! spec_landing empty_landing_game 3 = 1
      \<and> 0 < spec_sown empty_landing_game 3
               ! (2 * pits_per_player empty_landing_game - spec_landing empty_landing_game 3)"
    unfolding empty_landing_game_def by code_simp
  note c = capture_rule[OF h1 h2, THEN conjunct1, THEN iffD2, OF h7]
  show ?thesis by (intro conjI h1 h2 h3 h4 h5 h6 c)
qed

text \<open>
  C3 as stated fails: in the one-pit game with three stones a side the only move sows a full
  lap, the last stone lands in the pit the move started from, and the capture happens
  although that cell held three stones before the move.
\<close>

theorem capture_rule_counterexample:
  "play lap_game 1 = Some (Inr True,
        lap_game\<lparr>board := [0, 6, 0, 0], moves_history := [(1, 1)]\<rparr>)
   \<and> distribute_stones (record_move lap_game 1) 0 1 3 = Some (0,
        lap_game\<lparr>board := [1, 1, 4, 0], moves_history := [(1, 1)]\<rparr>)
   \<and> check_capture (lap_game\<lparr>board := [1, 1, 4, 0], moves_history := [(1, 1)]\<rparr>) 0 1
       = lap_game\<lparr>board := [0, 6, 0, 0], moves_history := [(1, 1)]\<rparr>
   \<and> spec_landing lap_game 1 = 0
   \<and> spec_sown lap_game 1 = [1, 1, 4, 0]
   \<and> spec_own_pit 1 1 0
   \<and> capture_transfer [1, 1, 4, 0] [0, 6, 0, 0] 0 2 1
   \<and> board lap_game ! 0 = 3"
  unfolding lap_game_def by code_simp

text \<open>
  C4 as stated fails: on the board of the capture test the single stone of pit 3 lands on
  index 3, which already holds four stones, so nothing is captured.
\<close>

theorem capture_test_counterexample:
  "play capture_test_game 3 = Some (Inr True,
        capture_test_game\<lparr>board := [0, 0, 0, 5, 4, 4, 0, 4, 4, 4, 4, 4, 4, 0],
                            current_player := 2, moves_history := [(1, 3)]\<rparr>)
   \<and> p1_score (capture_test_game\<lparr>board := [0, 0, 0, 5, 4, 4, 0, 4, 4, 4, 4, 4, 4, 0],
                            current_player := 2, moves_history := [(1, 3)]\<rparr>) = 0
   \<and> board (capture_test_game\<lparr>board := [0, 0, 0, 5, 4, 4, 0, 4, 4, 4, 4, 4, 4, 0],
                            current_player := 2, moves_history := [(1, 3)]\<rparr>) ! 3 = 5
   \<and> board (capture_test_game\<lparr>board := [0, 0, 0, 5, 4, 4, 0, 4, 4, 4, 4, 4, 4, 0],
                            current_player := 2, moves_history := [(1, 3)]\<rparr>) ! 9 = 4"
  unfolding capture_test_game_def by code_simp

text \<open>
  C4, as the code has it. On that board \<open>play 3\<close> sows one stone onto index 3, which then
  holds five; the capture check changes nothing, the store of player 1 stays empty, the
  opposite pit keeps its four stones and the turn passes to player 2. On the same board
  with index 3 emptied, \<open>play 3\<close> does capture: the four stones of index 9 and the landing
  stone go to the store of player 1, and indices 3 and 9 are empty afterwards.
\<close>

theorem capture_test_board:
  "play capture_test_game 3 = Some (Inr True,
        capture_test_game\<lparr>board := [0, 0, 0, 5, 4, 4, 0, 4, 4, 4, 4, 4, 4, 0],
                            current_player := 2, moves_history := [(1, 3)]\<rparr>)
   \<and> distribute_stones (record_move capture_test_game 3) 2 6 13 = Some (3,
        capture_test_game\<lparr>board := [0, 0, 0, 5, 4, 4, 0, 4, 4, 4, 4, 4, 4, 0],
                            moves_history := [(1, 3)]\<rparr>)
   \<and> check_capture (capture_test_game\<lparr>board := [0, 0, 0, 5, 4, 4, 0, 4, 4, 4, 4, 4, 4, 0],
                            moves_history := [(1, 3)]\<rparr>) 3 6
       = capture_test_game\<lparr>board := [0, 0, 0, 5, 4, 4, 0, 4, 4, 4, 4, 4, 4, 0],
                            moves_history := [(1, 3)]\<rparr>
   \<and> play empty_landing_game 3 = Some (Inr True,
        empty_landing_game\<lparr>board := [0, 0, 0, 0, 4, 4, 5, 4, 4, 0, 4, 4, 4, 0],
                             current_player := 2, moves_history := [(1, 3)]\<rparr>)
   \<and> distribute_stones (record_move empty_landing_game 3) 2 6 13 = Some (3,
        empty_landing_game\<lparr>board := [0, 0, 0, 1, 4, 4, 0, 4, 4, 4, 4, 4, 4, 0],
                             moves_history := [(1, 3)]\<rparr>)
   \<and> check_capture
        (empty_landing_game\<lparr>board := [0, 0, 0, 1, 4, 4, 0, 4, 4, 4, 4, 4, 4, 0],
                             moves_history := [(1, 3)]\<rparr>) 3 6
       = empty_landing_game\<lparr>board := [0, 0, 0, 0, 4, 4, 5, 4, 4, 0, 4, 4, 4, 0],
                             moves_history := [(1, 3)]\<rparr>"
  unfolding capture_test_game_def empty_landing_game_def by code_simp

text \<open>
  C5. Let \<open>L\<close> be the index the last stone of the specification's sowing walk lands on.
  After a successful \<open>play\<close> that leaves the game unfinished, the player to move is
  unchanged exactly when \<open>L\<close> is the mover's own store (index \<open>P\<close> for player 1,
  \<open>2 * P + 1\<close> for player 2), and is the other player otherwise; a last stone in the own
  store never changes the player to move, and neither does a move that ends the game. From
  the standard opening, pit 3 of player 1 is index 2, its last stone lands in the store at
  index 6, and player 1 moves again.
\<close>

theorem extra_turn_rule:
  assumes "wf_game g" and "play g pit = Some (Inr True, g')"
  defines "P \<equiv> pits_per_player g" and "player \<equiv> current_player g"
  defines "L \<equiv> spec_landing g pit"
  shows "(\<not> spec_game_over P (board g') \<longrightarrow>
            (current_player g' = player \<longleftrightarrow> L = spec_store P player)
          \<and> (L \<noteq> spec_store P player \<longrightarrow> current_player g' = spec_other player))
     \<and> (L = spec_store P player \<longrightarrow> current_player g' = player)
     \<and> (spec_game_over P (board g') \<longrightarrow> current_player g' = player)
     \<and> (is_terminal g' \<longleftrightarrow> spec_game_over P (board g'))
     \<and> play standard_game 3 = Some (Inr True,
          standard_game\<lparr>board := [4, 4, 0, 5, 5, 5, 1, 4, 4, 4, 4, 4, 4, 0],
                          moves_history := [(1, 3)]\<rparr>)
     \<and> spec_source 6 1 3 = 2 \<and> spec_landing standard_game 3 = 6 \<and> spec_store 6 1 = 6
     \<and> current_player (standard_game\<lparr>board := [4, 4, 0, 5, 5, 5, 1, 4, 4, 4, 4, 4, 4, 0],
                          moves_history := [(1, 3)]\<rparr>) = 1"
proof -
  note w = wf_gameD[OF assms(1)]
  note s = play_spec[OF assms(1,2), folded P_def player_def L_def]
  have ne: "spec_other player \<noteq> player" by (simp add: spec_other_def)
  have a: "\<not> spec_game_over P (board g') \<longrightarrow>
            (current_player g' = player \<longleftrightarrow> L = spec_store P player)
          \<and> (L \<noteq> spec_store P player \<longrightarrow> current_player g' = spec_other player)"
    using s(2) ne by auto
  have b: "L = spec_store P player \<longrightarrow> current_player g' = player" using s(2) by simp
  have c: "spec_game_over P (board g') \<longrightarrow> current_player g' = player" using s(2) by simp
  have d: "is_terminal g' \<longleftrightarrow> spec_game_over P (board g')" by (rule s(3))
  have e: "play standard_game 3 = Some (Inr True,
          standard_game\<lparr>board := [4, 4, 0, 5, 5, 5, 1, 4, 4, 4, 4, 4, 4, 0],
                          moves_history := [(1, 3)]\<rparr>)"
    unfolding standard_game_def by code_simp
  have f: "spec_source 6 1 3 = 2" "spec_landing standard_game 3 = 6" "spec_store 6 1 = 6"
    "current_player (standard_game\<lparr>board := [4, 4, 0, 5, 5, 5, 1, 4, 4, 4, 4, 4, 4, 0],
                          moves_history := [(1, 3)]\<rparr>) = 1"
    unfolding standard_game_def by code_simp+
  show ?thesis by (intro conjI a b c d e f)
qed

theorem extra_turn_rule_witness:
  "wf_game standard_game
   \<and> play standard_game 1 = Some (Inr True,
        standard_game\<lparr>board := [0, 5, 5, 5, 5, 4, 0, 4, 4, 4, 4, 4, 4, 0],
                        current_player := 2, moves_history := [(1, 1)]\<rparr>)
   \<and> \<not> spec_game_over (pits_per_player standard_game)
          (board (standard_game\<lparr>board := [0, 5, 5, 5, 5, 4, 0, 4, 4, 4, 4, 4, 4, 0],
                        current_player := 2, moves_history := [(1, 1)]\<rparr>))
   \<and> spec_landing standard_game 1 = 4
   \<and> spec_landing standard_game 1
       \<noteq> spec_store (pits_per_player standard_game) (current_player standard_game)
   \<and> current_player (standard_game\<lparr>board := [0, 5, 5, 5, 5, 4, 0, 4, 4, 4, 4, 4, 4, 0],
                        current_player := 2, moves_history := [(1, 1)]\<rparr>)
       = spec_other (current_player standard_game)"
proof -
  have h1: "wf_game standard_game" unfolding standard_game_def by code_simp
  have h2: "play standard_game 1 = Some (Inr True,
        standard_game\<lparr>board := [0, 5, 5, 5, 5, 4, 0, 4, 4, 4, 4, 4, 4, 0],
                        current_player := 2, moves_history := [(1, 1)]\<rparr>)"
    unfolding standard_game_def by code_simp
  have h3: "\<not> spec_game_over (pits_per_player standard_game)
          (board (standard_game\<lparr>board := [0, 5, 5, 5, 5, 4, 0, 4, 4, 4, 4, 4, 4, 0],
                        current_player := 2, moves_history := [(1, 1)]\<rparr>))"
    unfolding standard_game_def by code_simp
  have h4: "spec_landing standard_game 1 = 4" unfolding standard_game_def by code_simp
  have h5: "spec_landing standard_game 1
       \<noteq> spec_store (pits_per_player standard_game) (current_player standard_game)"
    unfolding standard_game_def by code_simp
  from extra_turn_rule[OF h1 h2] h3 h5
  have c: "current_player (standard_game\<lparr>board := [0, 5, 5, 5, 5, 4, 0, 4, 4, 4, 4, 4, 4, 0],
                        current_player := 2, moves_history := [(1, 1)]\<rparr>)
       = spec_other (current_player standard_game)"
    by blast
  show ?thesis by (intro conjI h1 h2 h3 h4 h5 c)
qed

text \<open>
  C6. Let \<open>B\<close> be the board after the sowing walk and the capture rule of the
  specification. When a side of \<open>B\<close> is left without stones, or the state a successful
  \<open>play\<close> ends in is terminal, that state is terminal, every cell that is not a store is
  empty, the store of player 1 (index \<open>P\<close>) holds what it held in \<open>B\<close> plus the stones of
  player 1's pit range in \<open>B\<close>, and the store of player 2 (index \<open>2 * P + 1\<close>) what it held
  plus the stones of player 2's pit range. Otherwise the resulting board is \<open>B\<close> and the
  game goes on.
\<close>

theorem sweep_when_side_empty:
  assumes "wf_game g" and "play g pit = Some (Inr True, g')"
  defines "P \<equiv> pits_per_player g"
  defines "B \<equiv> spec_capture P (current_player g) (spec_landing g pit) (spec_sown g pit)"
  shows "(spec_game_over P B \<or> spec_game_over P (board g') \<or> is_terminal g' \<longrightarrow>
            is_terminal g' \<and> spec_game_over P (board g') \<and> spec_pits_empty P (board g')
          \<and> board g' ! P = B ! P + spec_side_sum P 1 B
          \<and> board g' ! (2 * P + 1) = B ! (2 * P + 1) + spec_side_sum P 2 B
          \<and> length (board g') = length B)
     \<and> (\<not> spec_game_over P B \<longrightarrow> board g' = B \<and> \<not> is_terminal g')"
proof -
  note s = play_spec[OF assms(1,2), folded P_def, folded B_def]
  have l: "P < length B" "2 * P + 1 < length B" using s(7) by simp_all
  note sp = spec_sweep_props[of P B]
  show ?thesis
  proof (cases "spec_game_over P B")
    case False
    then show ?thesis using s(1,3,9) by simp
  next
    case True
    then have b: "board g' = spec_sweep P B" using s(1) by simp
    have "is_terminal g'" "spec_game_over P (board g')" using True s(3,9) by simp_all
    moreover have "spec_pits_empty P (board g')" unfolding b by (rule sp(4))
    moreover have "board g' ! P = B ! P + spec_side_sum P 1 B"
      unfolding b by (rule sp(2)[OF l(1)])
    moreover have "board g' ! (2 * P + 1) = B ! (2 * P + 1) + spec_side_sum P 2 B"
      unfolding b by (rule sp(3)[OF l(2)])
    moreover have "length (board g') = length B" unfolding b by (rule sp(1))
    ultimately show ?thesis using True by simp
  qed
qed

theorem sweep_when_side_empty_witness:
  "wf_game last_stone_game
   \<and> play last_stone_game 3 = Some (Inr True,
        last_stone_game\<lparr>board := [0, 0, 0, 6, 0, 0, 0, 3], moves_history := [(1, 3)]\<rparr>)
   \<and> spec_capture 3 1 (spec_landing last_stone_game 3) (spec_sown last_stone_game 3)
       = [0, 0, 0, 6, 1, 1, 1, 0]
   \<and> spec_game_over 3 [0, 0, 0, 6, 1, 1, 1, 0]
   \<and> spec_side_sum 3 1 [0, 0, 0, 6, 1, 1, 1, 0] = 0
   \<and> spec_side_sum 3 2 [0, 0, 0, 6, 1, 1, 1, 0] = 3
   \<and> is_terminal (last_stone_game\<lparr>board := [0, 0, 0, 6, 0, 0, 0, 3], moves_history := [(1, 3)]\<rparr>)
   \<and> spec_pits_empty (pits_per_player last_stone_game)
        (board (last_stone_game\<lparr>board := [0, 0, 0, 6, 0, 0, 0, 3], moves_history := [(1, 3)]\<rparr>))
   \<and> board (last_stone_game\<lparr>board := [0, 0, 0, 6, 0, 0, 0, 3], moves_history := [(1, 3)]\<rparr>)
         ! pits_per_player last_stone_game
       = spec_capture (pits_per_player last_stone_game) (current_player last_stone_game)
           (spec_landing last_stone_game 3) (spec_sown last_stone_game 3)
         ! pits_per_player last_stone_game
       + spec_side_sum (pits_per_player last_stone_game) 1
           (spec_capture (pits_per_player last_stone_game) (current_player last_stone_game)
              (spec_landing last_stone_game 3) (spec_sown last_stone_game 3))
   \<and> board (last_stone_game\<lparr>board := [0, 0, 0, 6, 0, 0, 0, 3], moves_history := [(1, 3)]\<rparr>)
         ! (2 * pits_per_player last_stone_game + 1)
       = spec_capture (pits_per_player last_stone_game) (current_player last_stone_game)
           (spec_landing last_stone_game 3) (spec_sown last_stone_game 3)
         ! (2 * pits_per_player last_stone_game + 1)
       + spec_side_sum (pits_per_player last_stone_game) 2
           (spec_capture (pits_per_player last_stone_game) (current_player last_stone_game)
              (spec_landing last_stone_game 3) (spec_sown last_stone_game 3))"
proof -
  have h1: "wf_game last_stone_game" unfolding last_stone_game_def by code_simp
  have h2: "play last_stone_game 3 = Some (Inr True,
        last_stone_game\<lparr>board := [0, 0, 0, 6, 0, 0, 0, 3], moves_history := [(1, 3)]\<rparr>)"
    unfolding last_stone_game_def by code_simp
  have h3: "spec_capture 3 1 (spec_landing last_stone_game 3) (spec_sown last_stone_game 3)
       = [0, 0, 0, 6, 1, 1, 1, 0]"
    unfolding last_stone_game_def by code_simp
  have h4: "spec_game_over 3 [0, 0, 0, 6, 1, 1, 1, 0]" by code_simp
  have h5: "spec_side_sum 3 1 [0, 0, 0, 6, 1, 1, 1, 0] = 0" by code_simp
  have h6: "spec_side_sum 3 2 [0, 0, 0, 6, 1, 1, 1, 0] = 3" by code_simp
  have h7: "spec_game_over (pits_per_player last_stone_game)
      (spec_capture (pits_per_player last_stone_game) (current_player last_stone_game)
         (spec_landing last_stone_game 3) (spec_sown last_stone_game 3))"
    unfolding last_stone_game_def by code_simp
  note c = sweep_when_side_empty[OF h1 h2, THEN conjunct1, rule_format, OF disjI1, OF h7]
  show ?thesis
    by (intro conjI h1 h2 h3 h4 h5 h6 c[THEN conjunct1]
        c[THEN conjunct2, THEN conjunct2, THEN conjunct1]
        c[THEN conjunct2, THEN conjunct2, THEN conjunct2, THEN conjunct1]
        c[THEN conjunct2, THEN conjunct2, THEN conjunct2, THEN conjunct2, THEN conjunct1])
qed

section \<open>Properties of the search\<close>

lemma score_bounds [simp]: "MinusInf \<le> (x::score)" "(x::score) \<le> PlusInf"
  by (cases x; simp add: less_eq_score_def)+

lemma score_max_min [simp]:
  "max (x::score) MinusInf = x" "max MinusInf (x::score) = x"
  "min (x::score) PlusInf = x" "min PlusInf (x::score) = x"
  by (simp_all add: max_def min_def antisym)

lemma close_to_refl [simp]: "close_to alpha beta x x"
  by (simp add: close_to_def)

lemma mm_max_vals_ge: "v \<le> mm_max_vals T U K depth cs v d"
proof (induction cs arbitrary: v)
  case Nil
  then show ?case by simp
next
  case (Cons c cs)
  have "v \<le> max v (mm_min_val T U K depth c (d + 1))" by simp
  also have "\<dots> \<le> mm_max_vals T U K depth cs (max v (mm_min_val T U K depth c (d + 1))) d"
    by (rule Cons.IH)
  finally show ?case by simp
qed

lemma mm_min_vals_le: "mm_min_vals T U K depth cs v d \<le> v"
proof (induction cs arbitrary: v)
  case Nil
  then show ?case by simp
next
  case (Cons c cs)
  have "mm_min_vals T U K depth cs (min v (mm_max_val T U K depth c (d + 1))) d
      \<le> min v (mm_max_val T U K depth c (d + 1))"
    by (rule Cons.IH)
  also have "\<dots> \<le> v" by simp
  finally show ?case by simp
qed

lemma max_step:
  assumes "max a0 v < beta" "close_to a0 beta u v" "close_to (max a0 v) beta y x"
  shows "close_to a0 beta (max u y) (max v x)"
  using assms unfolding close_to_def by (auto simp: max_def split: if_splits)

lemma min_step:
  assumes "alpha < min b0 v" "close_to alpha b0 u v" "close_to alpha (min b0 v) y x"
  shows "close_to alpha b0 (min u y) (min v x)"
  using assms unfolding close_to_def by (auto simp: min_def split: if_splits)

lemma ab_close:
  "alpha < beta \<Longrightarrow>
     close_to alpha beta (mm_max_val T U K depth p d) (ab_max_val T U K depth p alpha beta d)"
  "alpha = max a0 v \<Longrightarrow> alpha < beta \<Longrightarrow> close_to a0 beta u v \<Longrightarrow>
     close_to a0 beta (mm_max_vals T U K depth cs u d)
       (ab_max_vals T U K depth cs v alpha beta d)"
  "alpha < beta \<Longrightarrow>
     close_to alpha beta (mm_min_val T U K depth p d) (ab_min_val T U K depth p alpha beta d)"
  "beta = min b0 v \<Longrightarrow> alpha < beta \<Longrightarrow> close_to alpha b0 u v \<Longrightarrow>
     close_to alpha b0 (mm_min_vals T U K depth cs u d)
       (ab_min_vals T U K depth cs v alpha beta d)"
proof (induction T U K depth p alpha beta d and T U K depth cs v alpha beta d
    and T U K depth p alpha beta d and T U K depth cs v alpha beta d
    arbitrary: and a0 u and and b0 u
    rule: ab_max_val_ab_max_vals_ab_min_val_ab_min_vals.induct)
  case (1 T U K depth p alpha beta d)
  show ?case
  proof (cases "depth \<le> d \<or> T p")
    case True
    then show ?thesis by simp
  next
    case False
    have "close_to alpha beta (mm_max_vals T U K depth (K p) MinusInf d)
       (ab_max_vals T U K depth (K p) MinusInf alpha beta d)"
      by (rule "1.IH"[OF False _ "1.prems"]) simp_all
    then show ?thesis using False by simp
  qed
next
  case (2 T U K depth v alpha beta d)
  then show ?case by simp
next
  case (3 T U K depth c cs v alpha beta d)
  define x where "x = ab_min_val T U K depth c alpha beta (d + 1)"
  define y where "y = mm_min_val T U K depth c (d + 1)"
  have xy: "close_to alpha beta y x" unfolding x_def y_def by (rule "3.IH"(1)[OF "3.prems"(2)])
  have st: "close_to a0 beta (max u y) (max v x)"
    using max_step[of a0 v beta u y x] "3.prems" xy by simp
  show ?case
  proof (cases "beta \<le> max v x")
    case True
    have "max v x \<le> max u y" using st True by (simp add: close_to_def)
    also have "\<dots> \<le> mm_max_vals T U K depth cs (max u y) d" by (rule mm_max_vals_ge)
    finally have le: "max v x \<le> mm_max_vals T U K depth cs (max u y) d" .
    have "a0 < beta" using "3.prems"(1,2) by simp
    then have na: "\<not> max v x \<le> a0" and nb: "\<not> max v x < beta"
      using True by (meson leD le_less_trans less_le_trans)+
    have "close_to a0 beta (mm_max_vals T U K depth cs (max u y) d) (max v x)"
      unfolding close_to_def using le na nb by blast
    then show ?thesis using True by (simp add: x_def y_def Let_def)
  next
    case False
    have a: "max alpha (max v x) = max a0 (max v x)" using "3.prems"(1) by (simp add: max.assoc)
    have b: "max alpha (max v x) < beta" using False "3.prems"(2) by (simp add: not_le)
    have "close_to a0 beta (mm_max_vals T U K depth cs (max u y) d)
       (ab_max_vals T U K depth cs (max v x) (max alpha (max v x)) beta d)"
      using "3.IH"(2)[OF x_def[symmetric, THEN arg_cong[where f="max v"], symmetric] False a b st]
      by simp
    then show ?thesis using False by (simp add: x_def y_def Let_def)
  qed
next
  case (4 T U K depth p alpha beta d)
  show ?case
  proof (cases "depth \<le> d \<or> T p")
    case True
    then show ?thesis by simp
  next
    case False
    have "close_to alpha beta (mm_min_vals T U K depth (K p) PlusInf d)
       (ab_min_vals T U K depth (K p) PlusInf alpha beta d)"
      by (rule "4.IH"[OF False _ "4.prems"]) simp_all
    then show ?thesis using False by simp
  qed
next
  case (5 T U K depth v alpha beta d)
  then show ?case by simp
next
  case (6 T U K depth c cs v alpha beta d)
  define x where "x = ab_max_val T U K depth c alpha beta (d + 1)"
  define y where "y = mm_max_val T U K depth c (d + 1)"
  have xy: "close_to alpha beta y x" unfolding x_def y_def by (rule "6.IH"(1)[OF "6.prems"(2)])
  have st: "close_to alpha b0 (min u y) (min v x)"
    using min_step[of alpha b0 v u y x] "6.prems" xy by simp
  show ?case
  proof (cases "min v x \<le> alpha")
    case True
    have "mm_min_vals T U K depth cs (min u y) d \<le> min u y" by (rule mm_min_vals_le)
    also have "\<dots> \<le> min v x" using st True by (simp add: close_to_def)
    finally have le: "mm_min_vals T U K depth cs (min u y) d \<le> min v x" .
    have "alpha < b0" using "6.prems"(1,2) by simp
    then have na: "\<not> b0 \<le> min v x" and nb: "\<not> alpha < min v x"
      using True by (meson leD le_less_trans less_le_trans)+
    have "close_to alpha b0 (mm_min_vals T U K depth cs (min u y) d) (min v x)"
      unfolding close_to_def using le na nb by blast
    then show ?thesis using True by (simp add: x_def y_def Let_def)
  next
    case False
    have a: "min beta (min v x) = min b0 (min v x)" using "6.prems"(1) by (simp add: min.assoc)
    have b: "alpha < min beta (min v x)" using False "6.prems"(2) by (simp add: not_le)
    have "close_to alpha b0 (mm_min_vals T U K depth cs (min u y) d)
       (ab_min_vals T U K depth cs (min v x) alpha (min beta (min v x)) d)"
      using "6.IH"(2)[OF x_def[symmetric, THEN arg_cong[where f="min v"], symmetric] False a b st]
      by simp
    then show ?thesis using False by (simp add: x_def y_def Let_def)
  qed
qed

lemma score_not_less [simp]: "\<not> PlusInf < (x::score)" "\<not> (x::score) < MinusInf"
  by (simp_all add: not_less)

lemma root_vals_equal:
  "ab_root_val T U K depth acs bs PlusInf ba = mm_root_val T U K depth acs ba bs"
proof (induction acs arbitrary: bs ba)
  case Nil
  then show ?case by simp
next
  case (Cons ac acs)
  obtain a c where ac: "ac = (a, c)" by (cases ac)
  define x where "x = ab_min_val T U K depth c bs PlusInf 1"
  define y where "y = mm_min_val T U K depth c 1"
  have "(bs < x \<longleftrightarrow> bs < y) \<and> (bs < x \<longrightarrow> x = y)"
  proof (cases "bs = PlusInf")
    case True
    then show ?thesis by simp
  next
    case False
    then have "bs < PlusInf" by (simp add: less_le)
    from ab_close(3)[OF this, of T U K depth c 1]
    have c: "close_to bs PlusInf y x" by (simp add: x_def y_def)
    show ?thesis
    proof (cases "bs < x")
      case True
      have "x = y"
      proof (cases "x < PlusInf")
        case True
        with \<open>bs < x\<close> c show ?thesis by (simp add: close_to_def)
      next
        case False
        then have "x = PlusInf" by (simp add: less_le)
        with c have "PlusInf \<le> y" by (simp add: close_to_def)
        then have "y = PlusInf" by (simp add: antisym)
        with \<open>x = PlusInf\<close> show ?thesis by simp
      qed
      with True show ?thesis by simp
    next
      case False
      then have "x \<le> bs" by simp
      with c have "y \<le> x" by (simp add: close_to_def)
      with \<open>x \<le> bs\<close> have "\<not> bs < y" by (simp add: not_less)
      with False show ?thesis by simp
    qed
  qed
  then have k: "(bs < x \<longleftrightarrow> bs < y)" "bs < x \<Longrightarrow> x = y" by blast+
  have sa: "ab_root_val T U K depth (ac # acs) bs PlusInf ba =
      (if bs < x then ab_root_val T U K depth acs x PlusInf (Some a)
       else ab_root_val T U K depth acs bs PlusInf ba)"
    unfolding ac x_def by (simp only: ab_root_val.simps Let_def)
  have sm: "mm_root_val T U K depth (ac # acs) ba bs =
      (if bs < y then mm_root_val T U K depth acs (Some a) y
       else mm_root_val T U K depth acs ba bs)"
    unfolding ac y_def by (simp only: mm_root_val.simps Let_def)
  show ?case
  proof (cases "bs < x")
    case True
    then have "bs < y" "x = y" using k by blast+
    then show ?thesis unfolding sa sm using Cons.IH[of y "Some a"] by simp
  next
    case False
    then have "\<not> bs < y" using k by blast
    then show ?thesis unfolding sa sm using False Cons.IH[of bs ba] by simp
  qed
qed

lemma simulatesD:
  assumes "simulates G A R T U view ok ext"
  shows "ext w w" "ext w1 w2 \<Longrightarrow> ext w2 w3 \<Longrightarrow> ext w1 w3"
    "ok w s \<Longrightarrow> ext w w' \<Longrightarrow> ok w' s" "ok w s \<Longrightarrow> ext w w' \<Longrightarrow> view w' s = view w s"
    "ok w s \<Longrightarrow> actions G w s = A (view w s)" "ok w s \<Longrightarrow> terminal_test G w s = T (view w s)"
    "ok w s \<Longrightarrow> utility G w s pl = U (view w s) pl"
    "ok w s \<Longrightarrow> a \<in> set (A (view w s)) \<Longrightarrow>
       \<exists>s' w'. result G w s a = Some (Inr s', w') \<and> ext w w' \<and> ok w' s'
          \<and> view w' s' = R (view w s) a"
  using assms unfolding simulates_def by blast+

declare ab_max_value.simps [simp del] ab_min_value.simps [simp del]
  mm_max_value.simps [simp del] mm_min_value.simps [simp del]
  ab_max_val.simps [simp del] ab_min_val.simps [simp del]
  mm_max_val.simps [simp del] mm_min_val.simps [simp del]

lemma ab_link:
  "simulates G A R T U view ok ext \<Longrightarrow> ok w s \<Longrightarrow>
     \<exists>w'. ab_max_value G depth pl s alpha beta d w
            = Some (Inr (ab_max_val T (\<lambda>p. U p pl) (kids A R) depth (view w s) alpha beta d), w')
          \<and> ext w w'"
  "simulates G A R T U view ok ext \<Longrightarrow> ok w s \<Longrightarrow> set as \<subseteq> set (A (view w s)) \<Longrightarrow>
     \<exists>w'. ab_max_loop G depth pl s as v alpha beta d w
            = Some (Inr (ab_max_vals T (\<lambda>p. U p pl) (kids A R) depth (map (R (view w s)) as)
                          v alpha beta d), w')
          \<and> ext w w'"
  "simulates G A R T U view ok ext \<Longrightarrow> ok w s \<Longrightarrow>
     \<exists>w'. ab_min_value G depth pl s alpha beta d w
            = Some (Inr (ab_min_val T (\<lambda>p. U p pl) (kids A R) depth (view w s) alpha beta d), w')
          \<and> ext w w'"
  "simulates G A R T U view ok ext \<Longrightarrow> ok w s \<Longrightarrow> set as \<subseteq> set (A (view w s)) \<Longrightarrow>
     \<exists>w'. ab_min_loop G depth pl s as v alpha beta d w
            = Some (Inr (ab_min_vals T (\<lambda>p. U p pl) (kids A R) depth (map (R (view w s)) as)
                          v alpha beta d), w')
          \<and> ext w w'"
proof (induction G depth pl s alpha beta d w and G depth pl s as v alpha beta d w
    and G depth pl s alpha beta d w and G depth pl s as v alpha beta d w
    rule: ab_max_value_ab_max_loop_ab_min_value_ab_min_loop.induct)
  case (1 G depth pl s alpha beta d w)
  note sim = simulatesD[OF "1.prems"(1)]
  note i = "1.prems"(2)
  show ?case
  proof (cases "depth \<le> d \<or> terminal_test G w s")
    case True
    then have "depth \<le> d \<or> T (view w s)" using sim(6)[OF i] by simp
    then show ?thesis
      using True sim(1) sim(7)[OF i] by (simp add: ab_max_value.simps ab_max_val.simps)
  next
    case False
    then have F: "\<not> (depth \<le> d \<or> T (view w s))" using sim(6)[OF i] by simp
    have "set (actions G w s) \<subseteq> set (A (view w s))" using sim(5)[OF i] by simp
    from "1.IH"[OF False "1.prems"(1) i this]
    show ?thesis using False F sim(5)[OF i]
      by (simp add: ab_max_value.simps ab_max_val.simps kids_def)
  qed
next
  case (2 G depth pl s v alpha beta d w)
  then show ?case using simulatesD(1)[OF "2.prems"(1)] by simp
next
  case (3 G depth pl s a rest v alpha beta d w)
  note sim = simulatesD[OF "3.prems"(1)]
  note i = "3.prems"(2)
  have a: "a \<in> set (A (view w s))" and r: "set rest \<subseteq> set (A (view w s))"
    using "3.prems"(3) by auto
  from sim(8)[OF i a] obtain s' w1 where
    res: "result G w s a = Some (Inr s', w1)" and e1: "ext w w1" and i1: "ok w1 s'"
    and a1: "view w1 s' = R (view w s) a" by blast
  define x where "x = ab_min_val T (\<lambda>p. U p pl) (kids A R) depth (R (view w s) a) alpha beta (d + 1)"
  from "3.IH"(1)[OF res refl refl "3.prems"(1) i1] obtain w2 where
    mv: "ab_min_value G depth pl s' alpha beta (d + 1) w1 = Some (Inr x, w2)"
    and e2: "ext w1 w2" by (auto simp: a1 x_def)
  have e12: "ext w w2" using sim(2)[OF e1 e2] .
  show ?case
  proof (cases "beta \<le> max v x")
    case True
    then show ?thesis using res mv e12 by (simp add: x_def[symmetric] Let_def)
  next
    case False
    have i2: "ok w2 s" and a2: "view w2 s = view w s" using sim(3,4)[OF i e12] by simp_all
    have r2: "set rest \<subseteq> set (A (view w2 s))" using r a2 by simp
    from "3.IH"(2)[OF res refl refl mv refl refl refl False "3.prems"(1) i2 r2] obtain w3 where
      l: "ab_max_loop G depth pl s rest (max v x) (max alpha (max v x)) beta d w2
           = Some (Inr (ab_max_vals T (\<lambda>p. U p pl) (kids A R) depth (map (R (view w s)) rest)
                          (max v x) (max alpha (max v x)) beta d), w3)"
      and e3: "ext w2 w3" by (auto simp: a2)
    have "ext w w3" using sim(2)[OF e12 e3] .
    then show ?thesis using res mv l False by (simp add: x_def[symmetric] Let_def)
  qed
next
  case (4 G depth pl s alpha beta d w)
  note sim = simulatesD[OF "4.prems"(1)]
  note i = "4.prems"(2)
  show ?case
  proof (cases "depth \<le> d \<or> terminal_test G w s")
    case True
    then have "depth \<le> d \<or> T (view w s)" using sim(6)[OF i] by simp
    then show ?thesis
      using True sim(1) sim(7)[OF i] by (simp add: ab_min_value.simps ab_min_val.simps)
  next
    case False
    then have F: "\<not> (depth \<le> d \<or> T (view w s))" using sim(6)[OF i] by simp
    have "set (actions G w s) \<subseteq> set (A (view w s))" using sim(5)[OF i] by simp
    from "4.IH"[OF False "4.prems"(1) i this]
    show ?thesis using False F sim(5)[OF i]
      by (simp add: ab_min_value.simps ab_min_val.simps kids_def)
  qed
next
  case (5 G depth pl s v alpha beta d w)
  then show ?case using simulatesD(1)[OF "5.prems"(1)] by simp
next
  case (6 G depth pl s a rest v alpha beta d w)
  note sim = simulatesD[OF "6.prems"(1)]
  note i = "6.prems"(2)
  have a: "a \<in> set (A (view w s))" and r: "set rest \<subseteq> set (A (view w s))"
    using "6.prems"(3) by auto
  from sim(8)[OF i a] obtain s' w1 where
    res: "result G w s a = Some (Inr s', w1)" and e1: "ext w w1" and i1: "ok w1 s'"
    and a1: "view w1 s' = R (view w s) a" by blast
  define x where "x = ab_max_val T (\<lambda>p. U p pl) (kids A R) depth (R (view w s) a) alpha beta (d + 1)"
  from "6.IH"(1)[OF res refl refl "6.prems"(1) i1] obtain w2 where
    mv: "ab_max_value G depth pl s' alpha beta (d + 1) w1 = Some (Inr x, w2)"
    and e2: "ext w1 w2" by (auto simp: a1 x_def)
  have e12: "ext w w2" using sim(2)[OF e1 e2] .
  show ?case
  proof (cases "min v x \<le> alpha")
    case True
    then show ?thesis using res mv e12 by (simp add: x_def[symmetric] Let_def)
  next
    case False
    have i2: "ok w2 s" and a2: "view w2 s = view w s" using sim(3,4)[OF i e12] by simp_all
    have r2: "set rest \<subseteq> set (A (view w2 s))" using r a2 by simp
    from "6.IH"(2)[OF res refl refl mv refl refl refl False "6.prems"(1) i2 r2] obtain w3 where
      l: "ab_min_loop G depth pl s rest (min v x) alpha (min beta (min v x)) d w2
           = Some (Inr (ab_min_vals T (\<lambda>p. U p pl) (kids A R) depth (map (R (view w s)) rest)
                          (min v x) alpha (min beta (min v x)) d), w3)"
      and e3: "ext w2 w3" by (auto simp: a2)
    have "ext w w3" using sim(2)[OF e12 e3] .
    then show ?thesis using res mv l False by (simp add: x_def[symmetric] Let_def)
  qed
qed

lemma mm_link:
  "simulates G A R T U view ok ext \<Longrightarrow> ok w s \<Longrightarrow>
     \<exists>w'. mm_max_value G depth pl s d w
            = Some (Inr (mm_max_val T (\<lambda>p. U p pl) (kids A R) depth (view w s) d), w')
          \<and> ext w w'"
  "simulates G A R T U view ok ext \<Longrightarrow> ok w s \<Longrightarrow> set as \<subseteq> set (A (view w s)) \<Longrightarrow>
     \<exists>w'. mm_max_loop G depth pl s as v d w
            = Some (Inr (mm_max_vals T (\<lambda>p. U p pl) (kids A R) depth (map (R (view w s)) as)
                          v d), w')
          \<and> ext w w'"
  "simulates G A R T U view ok ext \<Longrightarrow> ok w s \<Longrightarrow>
     \<exists>w'. mm_min_value G depth pl s d w
            = Some (Inr (mm_min_val T (\<lambda>p. U p pl) (kids A R) depth (view w s) d), w')
          \<and> ext w w'"
  "simulates G A R T U view ok ext \<Longrightarrow> ok w s \<Longrightarrow> set as \<subseteq> set (A (view w s)) \<Longrightarrow>
     \<exists>w'. mm_min_loop G depth pl s as v d w
            = Some (Inr (mm_min_vals T (\<lambda>p. U p pl) (kids A R) depth (map (R (view w s)) as)
                          v d), w')
          \<and> ext w w'"
proof (induction G depth pl s d w and G depth pl s as v d w
    and G depth pl s d w and G depth pl s as v d w
    rule: mm_max_value_mm_max_loop_mm_min_value_mm_min_loop.induct)
  case (1 G depth pl s d w)
  note sim = simulatesD[OF "1.prems"(1)]
  note i = "1.prems"(2)
  show ?case
  proof (cases "depth \<le> d \<or> terminal_test G w s")
    case True
    then have "depth \<le> d \<or> T (view w s)" using sim(6)[OF i] by simp
    then show ?thesis
      using True sim(1) sim(7)[OF i] by (simp add: mm_max_value.simps mm_max_val.simps)
  next
    case False
    then have F: "\<not> (depth \<le> d \<or> T (view w s))" using sim(6)[OF i] by simp
    have "set (actions G w s) \<subseteq> set (A (view w s))" using sim(5)[OF i] by simp
    from "1.IH"[OF False "1.prems"(1) i this]
    show ?thesis using False F sim(5)[OF i]
      by (simp add: mm_max_value.simps mm_max_val.simps kids_def)
  qed
next
  case (2 G depth pl s v d w)
  then show ?case using simulatesD(1)[OF "2.prems"(1)] by simp
next
  case (3 G depth pl s a rest v d w)
  note sim = simulatesD[OF "3.prems"(1)]
  note i = "3.prems"(2)
  have a: "a \<in> set (A (view w s))" and r: "set rest \<subseteq> set (A (view w s))"
    using "3.prems"(3) by auto
  from sim(8)[OF i a] obtain s' w1 where
    res: "result G w s a = Some (Inr s', w1)" and e1: "ext w w1" and i1: "ok w1 s'"
    and a1: "view w1 s' = R (view w s) a" by blast
  define x where "x = mm_min_val T (\<lambda>p. U p pl) (kids A R) depth (R (view w s) a) (d + 1)"
  from "3.IH"(1)[OF res refl refl "3.prems"(1) i1] obtain w2 where
    mv: "mm_min_value G depth pl s' (d + 1) w1 = Some (Inr x, w2)"
    and e2: "ext w1 w2" by (auto simp: a1 x_def)
  have e12: "ext w w2" using sim(2)[OF e1 e2] .
  have i2: "ok w2 s" and a2: "view w2 s = view w s" using sim(3,4)[OF i e12] by simp_all
  have r2: "set rest \<subseteq> set (A (view w2 s))" using r a2 by simp
  from "3.IH"(2)[OF res refl refl mv refl refl "3.prems"(1) i2 r2] obtain w3 where
    l: "mm_max_loop G depth pl s rest (max v x) d w2
         = Some (Inr (mm_max_vals T (\<lambda>p. U p pl) (kids A R) depth (map (R (view w s)) rest)
                        (max v x) d), w3)"
    and e3: "ext w2 w3" by (auto simp: a2)
  have "ext w w3" using sim(2)[OF e12 e3] .
  then show ?case using res mv l by (simp add: x_def[symmetric])
next
  case (4 G depth pl s d w)
  note sim = simulatesD[OF "4.prems"(1)]
  note i = "4.prems"(2)
  show ?case
  proof (cases "depth \<le> d \<or> terminal_test G w s")
    case True
    then have "depth \<le> d \<or> T (view w s)" using sim(6)[OF i] by simp
    then show ?thesis
      using True sim(1) sim(7)[OF i] by (simp add: mm_min_value.simps mm_min_val.simps)
  next
    case False
    then have F: "\<not> (depth \<le> d \<or> T (view w s))" using sim(6)[OF i] by simp
    have "set (actions G w s) \<subseteq> set (A (view w s))" using sim(5)[OF i] by simp
    from "4.IH"[OF False "4.prems"(1) i this]
    show ?thesis using False F sim(5)[OF i]
      by (simp add: mm_min_value.simps mm_min_val.simps kids_def)
  qed
next
  case (5 G depth pl s v d w)
  then show ?case using simulatesD(1)[OF "5.prems"(1)] by simp
next
  case (6 G depth pl s a rest v d w)
  note sim = simulatesD[OF "6.prems"(1)]
  note i = "6.prems"(2)
  have a: "a \<in> set (A (view w s))" and r: "set rest \<subseteq> set (A (view w s))"
    using "6.prems"(3) by auto
  from sim(8)[OF i a] obtain s' w1 where
    res: "result G w s a = Some (Inr s', w1)" and e1: "ext w w1" and i1: "ok w1 s'"
    and a1: "view w1 s' = R (view w s) a" by blast
  define x where "x = mm_max_val T (\<lambda>p. U p pl) (kids A R) depth (R (view w s) a) (d + 1)"
  from "6.IH"(1)[OF res refl refl "6.prems"(1) i1] obtain w2 where
    mv: "mm_max_value G depth pl s' (d + 1) w1 = Some (Inr x, w2)"
    and e2: "ext w1 w2" by (auto simp: a1 x_def)
  have e12: "ext w w2" using sim(2)[OF e1 e2] .
  have i2: "ok w2 s" and a2: "view w2 s = view w s" using sim(3,4)[OF i e12] by simp_all
  have r2: "set rest \<subseteq> set (A (view w2 s))" using r a2 by simp
  from "6.IH"(2)[OF res refl refl mv refl refl "6.prems"(1) i2 r2] obtain w3 where
    l: "mm_min_loop G depth pl s rest (min v x) d w2
         = Some (Inr (mm_min_vals T (\<lambda>p. U p pl) (kids A R) depth (map (R (view w s)) rest)
                        (min v x) d), w3)"
    and e3: "ext w2 w3" by (auto simp: a2)
  have "ext w w3" using sim(2)[OF e12 e3] .
  then show ?case using res mv l by (simp add: x_def[symmetric])
qed

lemma ab_root_link:
  assumes sim: "simulates G A R T U view ok ext"
  shows "ok w s \<Longrightarrow> set as \<subseteq> set (A (view w s)) \<Longrightarrow>
     \<exists>w'. ab_root_loop G depth pl s as bs beta ba w
            = Some (Inr (snd (ab_root_val T (\<lambda>p. U p pl) (kids A R) depth
                               (map (\<lambda>a. (a, R (view w s) a)) as) bs beta ba)), w')
          \<and> ext w w'"
proof (induction as arbitrary: bs ba w)
  case Nil
  then show ?case using simulatesD(1)[OF sim] by simp
next
  case (Cons a rest)
  note s = simulatesD[OF sim]
  note i = Cons.prems(1)
  have a: "a \<in> set (A (view w s))" and r: "set rest \<subseteq> set (A (view w s))"
    using Cons.prems(2) by auto
  from s(8)[OF i a] obtain s' w1 where
    res: "result G w s a = Some (Inr s', w1)" and e1: "ext w w1" and i1: "ok w1 s'"
    and a1: "view w1 s' = R (view w s) a" by blast
  define x where "x = ab_min_val T (\<lambda>p. U p pl) (kids A R) depth (R (view w s) a) bs beta 1"
  from ab_link(3)[OF sim i1, of depth pl bs beta 1] obtain w2 where
    mv: "ab_min_value G depth pl s' bs beta 1 w1 = Some (Inr x, w2)"
    and e2: "ext w1 w2" by (auto simp: a1 x_def)
  have e12: "ext w w2" using s(2)[OF e1 e2] .
  have i2: "ok w2 s" and a2: "view w2 s = view w s" using s(3,4)[OF i e12] by simp_all
  have r2: "set rest \<subseteq> set (A (view w2 s))" using r a2 by simp
  show ?case
  proof (cases "bs < x")
    case True
    from Cons.IH[OF i2 r2, of x "Some a"] obtain w3 where
      l: "ab_root_loop G depth pl s rest x beta (Some a) w2
           = Some (Inr (snd (ab_root_val T (\<lambda>p. U p pl) (kids A R) depth
                               (map (\<lambda>a. (a, R (view w s) a)) rest) x beta (Some a))), w3)"
      and e3: "ext w2 w3" by (auto simp: a2)
    have "ext w w3" using s(2)[OF e12 e3] .
    then show ?thesis using res mv l True by (simp add: x_def[symmetric] Let_def)
  next
    case False
    from Cons.IH[OF i2 r2, of bs ba] obtain w3 where
      l: "ab_root_loop G depth pl s rest bs beta ba w2
           = Some (Inr (snd (ab_root_val T (\<lambda>p. U p pl) (kids A R) depth
                               (map (\<lambda>a. (a, R (view w s) a)) rest) bs beta ba)), w3)"
      and e3: "ext w2 w3" by (auto simp: a2)
    have "ext w w3" using s(2)[OF e12 e3] .
    then show ?thesis using res mv l False by (simp add: x_def[symmetric] Let_def)
  qed
qed

lemma mm_root_link:
  assumes sim: "simulates G A R T U view ok ext"
  shows "ok w s \<Longrightarrow> set as \<subseteq> set (A (view w s)) \<Longrightarrow>
     \<exists>w'. mm_root_loop G depth pl s as ba bv w
            = Some (Inr (snd (mm_root_val T (\<lambda>p. U p pl) (kids A R) depth
                               (map (\<lambda>a. (a, R (view w s) a)) as) ba bv)), w')
          \<and> ext w w'"
proof (induction as arbitrary: bv ba w)
  case Nil
  then show ?case using simulatesD(1)[OF sim] by simp
next
  case (Cons a rest)
  note s = simulatesD[OF sim]
  note i = Cons.prems(1)
  have a: "a \<in> set (A (view w s))" and r: "set rest \<subseteq> set (A (view w s))"
    using Cons.prems(2) by auto
  from s(8)[OF i a] obtain s' w1 where
    res: "result G w s a = Some (Inr s', w1)" and e1: "ext w w1" and i1: "ok w1 s'"
    and a1: "view w1 s' = R (view w s) a" by blast
  define x where "x = mm_min_val T (\<lambda>p. U p pl) (kids A R) depth (R (view w s) a) 1"
  from mm_link(3)[OF sim i1, of depth pl 1] obtain w2 where
    mv: "mm_min_value G depth pl s' 1 w1 = Some (Inr x, w2)"
    and e2: "ext w1 w2" by (auto simp: a1 x_def)
  have e12: "ext w w2" using s(2)[OF e1 e2] .
  have i2: "ok w2 s" and a2: "view w2 s = view w s" using s(3,4)[OF i e12] by simp_all
  have r2: "set rest \<subseteq> set (A (view w2 s))" using r a2 by simp
  show ?case
  proof (cases "bv < x")
    case True
    from Cons.IH[OF i2 r2, of "Some a" x] obtain w3 where
      l: "mm_root_loop G depth pl s rest (Some a) x w2
           = Some (Inr (snd (mm_root_val T (\<lambda>p. U p pl) (kids A R) depth
                               (map (\<lambda>a. (a, R (view w s) a)) rest) (Some a) x)), w3)"
      and e3: "ext w2 w3" by (auto simp: a2)
    have "ext w w3" using s(2)[OF e12 e3] .
    then show ?thesis using res mv l True by (simp add: x_def[symmetric] Let_def)
  next
    case False
    from Cons.IH[OF i2 r2, of ba bv] obtain w3 where
      l: "mm_root_loop G depth pl s rest ba bv w2
           = Some (Inr (snd (mm_root_val T (\<lambda>p. U p pl) (kids A R) depth
                               (map (\<lambda>a. (a, R (view w s) a)) rest) ba bv)), w3)"
      and e3: "ext w2 w3" by (auto simp: a2)
    have "ext w w3" using s(2)[OF e12 e3] .
    then show ?thesis using res mv l False by (simp add: x_def[symmetric] Let_def)
  qed
qed

lemma searches_agree:
  assumes sim: "simulates G A R T U view ok ext" and i: "ok w s"
  shows "\<exists>r wa wm. alpha_beta_search s G depth w = Some (Inr r, wa)
     \<and> minimax_search s G depth w = Some (Inr r, wm) \<and> ext w wa \<and> ext w wm"
proof -
  note s = simulatesD[OF sim]
  have sub: "set (actions G w s) \<subseteq> set (A (view w s))" using s(5)[OF i] by simp
  from ab_root_link[OF sim i sub, of depth "to_move G s" MinusInf PlusInf None]
  obtain wa where a: "alpha_beta_search s G depth w
      = Some (Inr (snd (ab_root_val T (\<lambda>p. U p (to_move G s)) (kids A R) depth
           (map (\<lambda>a. (a, R (view w s) a)) (actions G w s)) MinusInf PlusInf None)), wa)"
    and ea: "ext w wa" by (auto simp: alpha_beta_search_def)
  from mm_root_link[OF sim i sub, of depth "to_move G s" None MinusInf]
  obtain wm where m: "minimax_search s G depth w
      = Some (Inr (snd (mm_root_val T (\<lambda>p. U p (to_move G s)) (kids A R) depth
           (map (\<lambda>a. (a, R (view w s) a)) (actions G w s)) None MinusInf)), wm)"
    and em: "ext w wm" by (auto simp: minimax_search_def)
  show ?thesis using a m ea em by (simp add: root_vals_equal)
qed

lemma root_val_move:
  "snd (mm_root_val T U K depth acs ba bv) = Some m \<Longrightarrow> ba = Some m \<or> m \<in> fst ` set acs"
proof (induction acs arbitrary: ba bv)
  case Nil
  then show ?case by simp
next
  case (Cons ac acs)
  obtain a c where ac: "ac = (a, c)" by (cases ac)
  show ?case
  proof (cases "bv < mm_min_val T U K depth c 1")
    case True
    with Cons.prems have "snd (mm_root_val T U K depth acs (Some a) (mm_min_val T U K depth c 1)) = Some m"
      by (simp add: ac Let_def)
    from Cons.IH[OF this] show ?thesis by (auto simp: ac)
  next
    case False
    with Cons.prems have "snd (mm_root_val T U K depth acs ba bv) = Some m"
      by (simp add: ac Let_def)
    from Cons.IH[OF this] show ?thesis by auto
  qed
qed

lemma searches_agree_value:
  assumes sim: "simulates G A R T U view ok ext" and i: "ok w s"
  shows "\<exists>r wa wm. alpha_beta_search s G depth w = Some (Inr r, wa)
     \<and> minimax_search s G depth w = Some (Inr r, wm) \<and> ext w wa \<and> ext w wm
     \<and> (\<forall>m. r = Some m \<longrightarrow> m \<in> set (actions G w s)
            \<and> (\<exists>v. backed_up_value G s depth m w = Some v))"
proof -
  note s = simulatesD[OF sim]
  have sub: "set (actions G w s) \<subseteq> set (A (view w s))" using s(5)[OF i] by simp
  let ?r = "snd (mm_root_val T (\<lambda>p. U p (to_move G s)) (kids A R) depth
           (map (\<lambda>a. (a, R (view w s) a)) (actions G w s)) None MinusInf)"
  from ab_root_link[OF sim i sub, of depth "to_move G s" MinusInf PlusInf None]
  obtain wa where a: "alpha_beta_search s G depth w = Some (Inr ?r, wa)"
    and ea: "ext w wa" by (auto simp: alpha_beta_search_def root_vals_equal)
  from mm_root_link[OF sim i sub, of depth "to_move G s" None MinusInf]
  obtain wm where m: "minimax_search s G depth w = Some (Inr ?r, wm)"
    and em: "ext w wm" by (auto simp: minimax_search_def)
  have "m \<in> set (actions G w s) \<and> (\<exists>v. backed_up_value G s depth m w = Some v)"
    if r: "?r = Some m" for m
  proof -
    from root_val_move[OF r] have mem: "m \<in> set (actions G w s)" by (auto simp: image_iff)
    then have "m \<in> set (A (view w s))" using sub by blast
    from s(8)[OF i this] obtain s' w1 where
      res: "result G w s m = Some (Inr s', w1)" and i1: "ok w1 s'" by blast
    from mm_link(3)[OF sim i1, of depth "to_move G s" 1] obtain v w2 where
      "mm_min_value G depth (to_move G s) s' 1 w1 = Some (Inr v, w2)" by blast
    with res have "backed_up_value G s depth m w = Some v" by (simp add: backed_up_value_def)
    with mem show ?thesis by blast
  qed
  then show ?thesis using a m ea em by blast
qed

lemma prefix_nth: "prefix w w' \<Longrightarrow> a < length w \<Longrightarrow> w' ! a = w ! a"
  by (auto simp: prefix_def nth_append)

lemma valid_moves_set:
  "m \<in> set (legal_moves g) \<Longrightarrow> \<not> is_terminal g \<and> is_valid_move g m"
  by (auto simp: legal_moves_def get_valid_moves_def split: if_splits)

lemma ai_result_unfold:
  "ai_result w s m =
     (case play (w ! gs_board s) m of
        None \<Rightarrow> None
      | Some (Inl e, g') \<Rightarrow> Some (Inl e, w @ [g'])
      | Some (Inr b, g') \<Rightarrow>
          Some (Inr \<lparr>gs_to_move = current_player g', gs_utility = calculate_utility g',
                     gs_board = length w, gs_moves = get_valid_moves g'\<rparr>, w @ [g']))"
  by (simp add: ai_result_def copy_def play_at_def split: option.splits sum.splits prod.splits)

lemma MancalaAI_simulates:
  "simulates MancalaAI legal_moves played is_terminal score_for object_of store_ok prefix"
  unfolding simulates_def
proof (intro conjI allI impI)
  fix w w' :: store and s
  assume ok: "store_ok w s" and p: "prefix w w'"
  have l: "length w \<le> length w'" using p by (rule prefix_length_le)
  have n: "w' ! gs_board s = w ! gs_board s" using prefix_nth[OF p] ok by (simp add: store_ok_def)
  show "store_ok w' s" using ok l n by (simp add: store_ok_def)
  show "object_of w' s = object_of w s" using n by (simp add: object_of_def)
next
  fix w :: store and s
  assume ok: "store_ok w s"
  show "actions MancalaAI w s = legal_moves (object_of w s)"
    by (simp add: MancalaAI_def ai_actions_def ai_terminal_test_def legal_moves_def object_of_def)
  show "terminal_test MancalaAI w s = is_terminal (object_of w s)"
    by (simp add: MancalaAI_def ai_terminal_test_def object_of_def)
  fix pl
  show "utility MancalaAI w s pl = score_for (object_of w s) pl"
    by (simp add: MancalaAI_def ai_utility_def score_for_def object_of_def Let_def)
next
  fix w :: store and s a
  assume ok: "store_ok w s" and a: "a \<in> set (legal_moves (object_of w s))"
  let ?g = "w ! gs_board s"
  have wf: "wf_game ?g" using ok by (simp add: store_ok_def)
  from valid_moves_set[OF a] have nt: "\<not> is_terminal ?g" and vm: "is_valid_move ?g a"
    by (simp_all add: object_of_def)
  from play_ok[OF wf nt vm] obtain g' where p: "play ?g a = Some (Inr True, g')"
    and w': "wf_game g'" by blast
  let ?s' = "\<lparr>gs_to_move = current_player g', gs_utility = calculate_utility g',
                     gs_board = length w, gs_moves = get_valid_moves g'\<rparr>"
  have r: "result MancalaAI w s a = Some (Inr ?s', w @ [g'])"
    using p by (simp add: MancalaAI_def ai_result_unfold)
  moreover have "prefix w (w @ [g'])" by simp
  moreover have "store_ok (w @ [g']) ?s'" using w' by (simp add: store_ok_def)
  moreover have "object_of (w @ [g']) ?s' = played (object_of w s) a"
    using p by (simp add: object_of_def played_def)
  ultimately show "\<exists>s' w'. result MancalaAI w s a = Some (Inr s', w') \<and> prefix w w'
      \<and> store_ok w' s' \<and> object_of w' s' = played (object_of w s) a" by blast
qed (auto intro: prefix_order.order_trans)

lemma prefix_take: "prefix w w' \<Longrightarrow> take (length w) w' = w"
  by (auto simp: prefix_def)

lemma store_okI: "gs_board s < length w \<Longrightarrow> wf_game (w ! gs_board s) \<Longrightarrow> store_ok w s"
  by (simp add: store_ok_def)

section \<open>The claims about the search\<close>

text \<open>
  C2. From every state whose game object is well-formed and at every depth, both searches
  return, and the moves they return back up the same value: the value \<open>minimax_search\<close>
  computes for the child of the move of \<open>alpha_beta_search\<close> is the one it computes for the
  child of its own move. Either both return a move or both return none.
\<close>

theorem alpha_beta_value_equals_minimax:
  assumes "gs_board state < length w" and "wf_game (w ! gs_board state)"
  shows "\<exists>ra wa rm wm.
       alpha_beta_search state MancalaAI depth w = Some (Inr ra, wa)
     \<and> minimax_search state MancalaAI depth w = Some (Inr rm, wm)
     \<and> (ra = None \<longleftrightarrow> rm = None)
     \<and> (\<forall>ma mm. ra = Some ma \<and> rm = Some mm \<longrightarrow>
           (\<exists>v. backed_up_value MancalaAI state depth ma w = Some v
               \<and> backed_up_value MancalaAI state depth mm w = Some v))"
proof -
  from searches_agree_value[OF MancalaAI_simulates store_okI[OF assms], of depth]
  obtain r wa wm where a: "alpha_beta_search state MancalaAI depth w = Some (Inr r, wa)"
    and m: "minimax_search state MancalaAI depth w = Some (Inr r, wm)"
    and v: "\<forall>m. r = Some m \<longrightarrow> (\<exists>v. backed_up_value MancalaAI state depth m w = Some v)"
    by blast
  show ?thesis using a m v by auto
qed

theorem alpha_beta_value_equals_minimax_witness:
  "gs_board small_state < length [small_game]
   \<and> wf_game ([small_game] ! gs_board small_state)
   \<and> (\<exists>ra wa rm wm.
         alpha_beta_search small_state MancalaAI 2 [small_game] = Some (Inr ra, wa)
       \<and> minimax_search small_state MancalaAI 2 [small_game] = Some (Inr rm, wm)
       \<and> (ra = None \<longleftrightarrow> rm = None)
       \<and> (\<forall>ma mm. ra = Some ma \<and> rm = Some mm \<longrightarrow>
             (\<exists>v. backed_up_value MancalaAI small_state 2 ma [small_game] = Some v
                 \<and> backed_up_value MancalaAI small_state 2 mm [small_game] = Some v)))
   \<and> map_option fst (alpha_beta_search small_state MancalaAI 2 [small_game])
       = Some (Inr (Some 2))
   \<and> map_option fst (minimax_search small_state MancalaAI 2 [small_game])
       = Some (Inr (Some 2))
   \<and> backed_up_value MancalaAI small_state 2 2 [small_game] = Some (Fin 1)"
proof -
  have h1: "gs_board small_state < length [small_game]"
    unfolding small_state_def small_game_def by code_simp
  have h2: "wf_game ([small_game] ! gs_board small_state)"
    unfolding small_state_def small_game_def by code_simp
  have e1: "map_option fst (alpha_beta_search small_state MancalaAI 2 [small_game])
      = Some (Inr (Some 2))"
    unfolding small_state_def small_game_def MancalaAI_def by code_simp
  have e2: "map_option fst (minimax_search small_state MancalaAI 2 [small_game])
      = Some (Inr (Some 2))"
    unfolding small_state_def small_game_def MancalaAI_def by code_simp
  have e3: "backed_up_value MancalaAI small_state 2 2 [small_game] = Some (Fin 1)"
    unfolding small_state_def small_game_def MancalaAI_def by code_simp
  show ?thesis by (intro conjI h1 h2 alpha_beta_value_equals_minimax[OF h1 h2] e1 e2 e3)
qed

text \<open>
  C8. \<open>result\<close> on a legal move returns a state whose game object sits at a new address
  and leaves every object of the store as it was, the object of the input state among
  them; both searches return with the store extended only, so that the object of the root
  state, with its board, player to move and move history, is the one it was.
\<close>

theorem search_does_not_mutate:
  assumes "gs_board state < length w" and "wf_game (w ! gs_board state)"
  shows "(\<forall>move\<in>set (ai_actions w state).
            \<exists>child w'. ai_result w state move = Some (Inr child, w')
              \<and> gs_board child = length w \<and> length w' = length w + 1
              \<and> take (length w) w' = w \<and> w' ! gs_board state = w ! gs_board state)
     \<and> (\<exists>r w'. minimax_search state MancalaAI depth w = Some (Inr r, w')
              \<and> take (length w) w' = w \<and> w' ! gs_board state = w ! gs_board state)
     \<and> (\<exists>r w'. alpha_beta_search state MancalaAI depth w = Some (Inr r, w')
              \<and> take (length w) w' = w \<and> w' ! gs_board state = w ! gs_board state)"
proof (intro conjI ballI)
  note ok = store_okI[OF assms]
  fix move assume mv: "move \<in> set (ai_actions w state)"
  let ?g = "w ! gs_board state"
  have "move \<in> set (legal_moves ?g)"
    using mv by (simp add: ai_actions_def ai_terminal_test_def legal_moves_def)
  from valid_moves_set[OF this] have nt: "\<not> is_terminal ?g" and vm: "is_valid_move ?g move"
    by simp_all
  from play_ok[OF assms(2) nt vm] obtain g' where p: "play ?g move = Some (Inr True, g')"
    by blast
  let ?s' = "\<lparr>gs_to_move = current_player g', gs_utility = calculate_utility g',
                     gs_board = length w, gs_moves = get_valid_moves g'\<rparr>"
  have "ai_result w state move = Some (Inr ?s', w @ [g'])"
    using p by (simp add: ai_result_unfold)
  moreover have "(w @ [g']) ! gs_board state = w ! gs_board state"
    using assms(1) by (simp add: nth_append)
  ultimately show "\<exists>child w'. ai_result w state move = Some (Inr child, w')
              \<and> gs_board child = length w \<and> length w' = length w + 1
              \<and> take (length w) w' = w \<and> w' ! gs_board state = w ! gs_board state"
    by simp
next
  note ok = store_okI[OF assms]
  from searches_agree_value[OF MancalaAI_simulates ok, of depth]
  obtain r wa wm where a: "alpha_beta_search state MancalaAI depth w = Some (Inr r, wa)"
    and m: "minimax_search state MancalaAI depth w = Some (Inr r, wm)"
    and ea: "prefix w wa" and em: "prefix w wm" by blast
  show "\<exists>r w'. minimax_search state MancalaAI depth w = Some (Inr r, w')
              \<and> take (length w) w' = w \<and> w' ! gs_board state = w ! gs_board state"
    using m prefix_take[OF em] prefix_nth[OF em assms(1)] by simp
  show "\<exists>r w'. alpha_beta_search state MancalaAI depth w = Some (Inr r, w')
              \<and> take (length w) w' = w \<and> w' ! gs_board state = w ! gs_board state"
    using a prefix_take[OF ea] prefix_nth[OF ea assms(1)] by simp
qed

theorem search_does_not_mutate_witness:
  "gs_board standard_state < length [standard_game]
   \<and> wf_game ([standard_game] ! gs_board standard_state)
   \<and> 3 \<in> set (ai_actions [standard_game] standard_state)
   \<and> (\<exists>child w'. ai_result [standard_game] standard_state 3 = Some (Inr child, w')
              \<and> gs_board child = length [standard_game]
              \<and> length w' = length [standard_game] + 1
              \<and> take (length [standard_game]) w' = [standard_game]
              \<and> w' ! gs_board standard_state = [standard_game] ! gs_board standard_state)
   \<and> (\<exists>r w'. minimax_search standard_state MancalaAI 2 [standard_game] = Some (Inr r, w')
              \<and> take (length [standard_game]) w' = [standard_game]
              \<and> w' ! gs_board standard_state = [standard_game] ! gs_board standard_state)
   \<and> (\<exists>r w'. alpha_beta_search standard_state MancalaAI 2 [standard_game] = Some (Inr r, w')
              \<and> take (length [standard_game]) w' = [standard_game]
              \<and> w' ! gs_board standard_state = [standard_game] ! gs_board standard_state)"
proof -
  have h1: "gs_board standard_state < length [standard_game]"
    unfolding standard_state_def standard_game_def by code_simp
  have h2: "wf_game ([standard_game] ! gs_board standard_state)"
    unfolding standard_state_def standard_game_def by code_simp
  have h3: "3 \<in> set (ai_actions [standard_game] standard_state)"
    unfolding standard_state_def standard_game_def by code_simp
  note t = search_does_not_mutate[OF h1 h2, of 2]
  show ?thesis
    by (intro conjI h1 h2 h3 t[THEN conjunct1, THEN bspec, OF h3]
        t[THEN conjunct2, THEN conjunct1] t[THEN conjunct2, THEN conjunct2])
qed

text \<open>
  C9. When the list of actions at the root is empty, both searches return no move, without
  an error and without touching the store.
\<close>

theorem no_moves_no_action:
  assumes "actions game w state = []"
  shows "alpha_beta_search state game depth w = Some (Inr None, w)
     \<and> minimax_search state game depth w = Some (Inr None, w)"
  using assms by (simp add: alpha_beta_search_def minimax_search_def)

theorem no_moves_no_action_witness:
  "actions MancalaAI [finished_game] finished_state = []
   \<and> alpha_beta_search finished_state MancalaAI 3 [finished_game] = Some (Inr None, [finished_game])
   \<and> minimax_search finished_state MancalaAI 3 [finished_game] = Some (Inr None, [finished_game])"
proof -
  have h: "actions MancalaAI [finished_game] finished_state = []"
    unfolding finished_game_def finished_state_def MancalaAI_def by code_simp
  show ?thesis by (intro conjI h no_moves_no_action[OF h, THEN conjunct1]
      no_moves_no_action[OF h, THEN conjunct2])
qed

end
